theory Spec2Isabelle
  imports Main "HOL-Library.Word" "HOL-Library.Signed_Division" "HOL-Library.Monad_Syntax"
begin

unbundle bit_operations_syntax

section \<open>Machine types and the platform\<close>

type_synonym uint8_t = "8 word"
type_synonym uint32_t = "32 word"
type_synonym uint64_t = "64 word"
type_synonym size_t = "64 word"
type_synonym c_int = "32 word"

text \<open>
  \<open>transform_aes.c\<close> is compiled against OpenSSL (\<open>openssl/aes.h\<close>, \<open>openssl/sha.h\<close>)
  and against \<open>n2n.h\<close>. Neither is part of the file, so what the file takes from them is a
  parameter of the model: the size of the packet scratch buffer, the byte order in which the
  host stores an integer in memory (\<open>memcpy\<close> from \<open>&iv_seed\<close>), the hash, the two AES key
  schedules and the AES block function in both directions. The type \<open>'k\<close> is OpenSSL's
  \<open>AES_KEY\<close>.
\<close>

datatype byte_order = LittleEndian | BigEndian

record 'k platform =
  N2N_PKT_BUF_SIZE :: nat
  host_order :: byte_order
  SHA512 :: "uint8_t list \<Rightarrow> uint8_t list"
  AES_set_encrypt_key :: "uint8_t list \<Rightarrow> nat \<Rightarrow> 'k"
  AES_set_decrypt_key :: "uint8_t list \<Rightarrow> nat \<Rightarrow> 'k"
  AES_encrypt :: "'k \<Rightarrow> uint8_t list \<Rightarrow> uint8_t list"
  AES_decrypt :: "'k \<Rightarrow> uint8_t list \<Rightarrow> uint8_t list"

definition AES256_KEY_BYTES :: nat where "AES256_KEY_BYTES = 256 div 8"
definition AES192_KEY_BYTES :: nat where "AES192_KEY_BYTES = 192 div 8"
definition AES128_KEY_BYTES :: nat where "AES128_KEY_BYTES = 128 div 8"
definition AES_BLOCK_SIZE :: nat where "AES_BLOCK_SIZE = 16"
definition SHA512_DIGEST_LENGTH :: nat where "SHA512_DIGEST_LENGTH = 64"

section \<open>Key setup\<close>

record 'k transop_aes =
  enc_key :: 'k
  dec_key :: 'k
  iv_enc_key :: 'k
  iv_ext_val :: "uint8_t list"

text \<open>
  \<open>struct sha512_keybuf\<close>: three byte arrays of 32, 16 and 16 bytes. \<open>SHA512\<close> writes its
  digest through a \<open>u_char *\<close> to the struct, so the digest bytes land in the three arrays
  in declaration order.
\<close>

record sha512_keybuf =
  kb_enc_dec_key :: "uint8_t list"
  kb_iv_enc_key :: "uint8_t list"
  kb_iv_ext_val :: "uint8_t list"

definition keybuf_of_digest :: "uint8_t list \<Rightarrow> sha512_keybuf" where
  "keybuf_of_digest md =
     \<lparr> kb_enc_dec_key = take AES256_KEY_BYTES md,
       kb_iv_enc_key = take AES128_KEY_BYTES (drop AES256_KEY_BYTES md),
       kb_iv_ext_val = take AES128_KEY_BYTES (drop (AES256_KEY_BYTES + AES128_KEY_BYTES) md) \<rparr>"

definition aes_best_keysize :: "size_t \<Rightarrow> size_t" where
  "aes_best_keysize numBytes =
     (if numBytes \<ge> of_nat AES256_KEY_BYTES then of_nat AES256_KEY_BYTES
      else if numBytes \<ge> of_nat AES192_KEY_BYTES then of_nat AES192_KEY_BYTES
      else of_nat AES128_KEY_BYTES)"

text \<open>
  \<open>setup_aes_key\<close> updates \<open>*priv\<close> in place and returns 0. The four \<open>memset\<close>s clear every
  field; each field is then written again, the keys by the OpenSSL key schedules (which
  read \<open>bits / 8\<close> bytes of the user key) and \<open>iv_ext_val\<close> by \<open>memcpy\<close>. \<open>key_size\<close> is the
  length of the secret.
\<close>

definition setup_aes_key ::
  "'k platform \<Rightarrow> 'k transop_aes \<Rightarrow> uint8_t list \<Rightarrow> 'k transop_aes \<times> c_int" where
  "setup_aes_key E priv key =
     (let key_size = (of_nat (length key) :: size_t);
          priv = priv\<lparr>iv_ext_val := replicate AES128_KEY_BYTES 0\<rparr>;
          aes_keysize_bytes = aes_best_keysize key_size;
          aes_keysize_bits = 8 * aes_keysize_bytes;
          keybuf = keybuf_of_digest (SHA512 E key);
          priv = priv\<lparr>enc_key :=
                   AES_set_encrypt_key E (kb_enc_dec_key keybuf) (unat aes_keysize_bits)\<rparr>;
          priv = priv\<lparr>dec_key :=
                   AES_set_decrypt_key E (kb_enc_dec_key keybuf) (unat aes_keysize_bits)\<rparr>;
          priv = priv\<lparr>iv_enc_key :=
                   AES_set_encrypt_key E (kb_iv_enc_key keybuf) (AES128_KEY_BYTES * 8)\<rparr>;
          priv = priv\<lparr>iv_ext_val := take AES128_KEY_BYTES (kb_iv_ext_val keybuf)
                                      @ drop AES128_KEY_BYTES (iv_ext_val priv)\<rparr>
      in (priv, 0))"

section \<open>Memory\<close>

text \<open>
  A buffer is the list of its bytes; its length is the size of the C object. An access
  outside the object is undefined in C: the model makes it \<open>None\<close>, so a function that
  returns \<open>Some\<close> has stayed inside every buffer it touched.
\<close>

definition memcpy_to :: "uint8_t list \<Rightarrow> nat \<Rightarrow> uint8_t list \<Rightarrow> uint8_t list option" where
  "memcpy_to dst off src =
     (if off + length src \<le> length dst
      then Some (take off dst @ src @ drop (off + length src) dst)
      else None)"

definition mem_read :: "uint8_t list \<Rightarrow> nat \<Rightarrow> nat \<Rightarrow> uint8_t list option" where
  "mem_read buf off n =
     (if off + n \<le> length buf then Some (take n (drop off buf)) else None)"

text \<open>Array indexing with an \<open>int\<close> index: \<open>buf[i] = v\<close> and \<open>buf[i]\<close>.\<close>

definition poke :: "uint8_t list \<Rightarrow> c_int \<Rightarrow> uint8_t \<Rightarrow> uint8_t list option" where
  "poke buf i v =
     (if 0 \<le> sint i \<and> nat (sint i) < length buf
      then Some (buf[nat (sint i) := v]) else None)"

definition peek :: "uint8_t list \<Rightarrow> c_int \<Rightarrow> uint8_t option" where
  "peek buf i =
     (if 0 \<le> sint i \<and> nat (sint i) < length buf
      then Some (buf ! nat (sint i)) else None)"

text \<open>The bytes of an integer in the host's memory, and the integer read back from them.\<close>

definition le_bytes :: "nat \<Rightarrow> 'a::len word \<Rightarrow> uint8_t list" where
  "le_bytes n w = map (\<lambda>i. ucast (drop_bit (8 * i) w)) [0..<n]"

definition host_bytes :: "byte_order \<Rightarrow> nat \<Rightarrow> 'a::len word \<Rightarrow> uint8_t list" where
  "host_bytes bo n w =
     (case bo of LittleEndian \<Rightarrow> le_bytes n w | BigEndian \<Rightarrow> rev (le_bytes n w))"

definition host_word :: "byte_order \<Rightarrow> uint8_t list \<Rightarrow> 'a::len word" where
  "host_word bo bs =
     (case bo of LittleEndian \<Rightarrow> word_rcat (rev bs) | BigEndian \<Rightarrow> word_rcat bs)"

text \<open>C's \<open>/\<close> and \<open>%\<close> on \<open>int\<close>: the quotient is truncated towards zero.\<close>

definition c_div :: "c_int \<Rightarrow> c_int \<Rightarrow> c_int" where
  "c_div a b = word_of_int (sint a sdiv sint b)"

definition c_mod :: "c_int \<Rightarrow> c_int \<Rightarrow> c_int" where
  "c_mod a b = word_of_int (sint a smod sint b)"

section \<open>Wire helpers\<close>

text \<open>
  Modelled from the spec: \<open>encode_uint8\<close>, \<open>encode_uint32\<close>, \<open>encode_buf\<close>, \<open>decode_uint8\<close>,
  \<open>decode_uint32\<close> and \<open>decode_buf\<close> are defined in another file of the repository. The
  wire format of the spec puts a 1-byte version at offset 0, a 4-byte reserved field at
  offset 1 and the 8-byte seed at offset 5, each field directly after the one before; the
  32-bit field is taken in network byte order (it only ever carries 0). Each helper moves
  the running index \<open>idx\<close> past the field, the decoders also lower the remaining count.
\<close>

definition encode_uint8 :: "uint8_t list \<Rightarrow> nat \<Rightarrow> uint8_t \<Rightarrow> (uint8_t list \<times> nat) option" where
  "encode_uint8 base idx v =
     do { base \<leftarrow> memcpy_to base idx [v]; Some (base, idx + 1) }"

definition encode_uint32 :: "uint8_t list \<Rightarrow> nat \<Rightarrow> uint32_t \<Rightarrow> (uint8_t list \<times> nat) option" where
  "encode_uint32 base idx v =
     do { base \<leftarrow> memcpy_to base idx (host_bytes BigEndian 4 v); Some (base, idx + 4) }"

definition encode_buf :: "uint8_t list \<Rightarrow> nat \<Rightarrow> uint8_t list \<Rightarrow> (uint8_t list \<times> nat) option" where
  "encode_buf base idx p =
     do { base \<leftarrow> memcpy_to base idx p; Some (base, idx + length p) }"

definition decode_uint8 ::
  "uint8_t list \<Rightarrow> size_t \<Rightarrow> nat \<Rightarrow> (uint8_t \<times> size_t \<times> nat) option" where
  "decode_uint8 base rem idx =
     do { bs \<leftarrow> mem_read base idx 1; Some (hd bs, rem - 1, idx + 1) }"

definition decode_uint32 ::
  "uint8_t list \<Rightarrow> size_t \<Rightarrow> nat \<Rightarrow> (uint32_t \<times> size_t \<times> nat) option" where
  "decode_uint32 base rem idx =
     do { bs \<leftarrow> mem_read base idx 4; Some (host_word BigEndian bs, rem - 4, idx + 4) }"

definition decode_buf ::
  "nat \<Rightarrow> uint8_t list \<Rightarrow> size_t \<Rightarrow> nat \<Rightarrow> (uint8_t list \<times> size_t \<times> nat) option" where
  "decode_buf bufsize base rem idx =
     do { bs \<leftarrow> mem_read base idx bufsize; Some (bs, rem - of_nat bufsize, idx + bufsize) }"

section \<open>The AES entry points of OpenSSL\<close>

datatype aes_dir = AES_ENCRYPT | AES_DECRYPT

definition AES_ecb_encrypt :: "'k platform \<Rightarrow> uint8_t list \<Rightarrow> 'k \<Rightarrow> aes_dir \<Rightarrow> uint8_t list" where
  "AES_ecb_encrypt E inp key enc =
     (case enc of AES_ENCRYPT \<Rightarrow> AES_encrypt E key inp | AES_DECRYPT \<Rightarrow> AES_decrypt E key inp)"

text \<open>
  Cipher block chaining over the block function, one 16-byte block per step, for the
  number of whole blocks in the length. Both callers pass a multiple of the block size.
\<close>

fun cbc128_encrypt ::
  "(uint8_t list \<Rightarrow> uint8_t list) \<Rightarrow> nat \<Rightarrow> uint8_t list \<Rightarrow> uint8_t list \<Rightarrow> uint8_t list" where
  "cbc128_encrypt block 0 iv inp = []"
| "cbc128_encrypt block (Suc n) iv inp =
     (let c = block (map2 (XOR) (take 16 inp) iv)
      in c @ cbc128_encrypt block n c (drop 16 inp))"

fun cbc128_decrypt ::
  "(uint8_t list \<Rightarrow> uint8_t list) \<Rightarrow> nat \<Rightarrow> uint8_t list \<Rightarrow> uint8_t list \<Rightarrow> uint8_t list" where
  "cbc128_decrypt block 0 iv inp = []"
| "cbc128_decrypt block (Suc n) iv inp =
     (let c = take 16 inp
      in map2 (XOR) (block c) iv @ cbc128_decrypt block n c (drop 16 inp))"

definition AES_cbc_encrypt ::
  "'k platform \<Rightarrow> uint8_t list \<Rightarrow> nat \<Rightarrow> 'k \<Rightarrow> uint8_t list \<Rightarrow> aes_dir \<Rightarrow> uint8_t list" where
  "AES_cbc_encrypt E inp len key ivec enc =
     (case enc of
        AES_ENCRYPT \<Rightarrow> cbc128_encrypt (AES_encrypt E key) (len div AES_BLOCK_SIZE) (take AES_BLOCK_SIZE ivec) inp
      | AES_DECRYPT \<Rightarrow> cbc128_decrypt (AES_decrypt E key) (len div AES_BLOCK_SIZE) (take AES_BLOCK_SIZE ivec) inp)"

section \<open>The transform\<close>

definition N2N_AES_TRANSFORM_VERSION :: uint8_t where "N2N_AES_TRANSFORM_VERSION = 1"
definition N2N_AES_IVEC_SIZE :: nat where "N2N_AES_IVEC_SIZE = 32"
definition TRANSOP_AES_VER_SIZE :: nat where "TRANSOP_AES_VER_SIZE = 1"
definition TRANSOP_AES_SA_SIZE :: nat where "TRANSOP_AES_SA_SIZE = 4"
definition TRANSOP_AES_IV_SEED_SIZE :: nat where "TRANSOP_AES_IV_SEED_SIZE = 8"
definition TRANSOP_AES_PREAMBLE_SIZE :: nat where
  "TRANSOP_AES_PREAMBLE_SIZE = TRANSOP_AES_VER_SIZE + TRANSOP_AES_SA_SIZE + TRANSOP_AES_IV_SEED_SIZE"
definition TRANSOP_AES_NONCE_SIZE :: nat where "TRANSOP_AES_NONCE_SIZE = 4"

text \<open>
  \<open>set_aes_cbc_iv\<close> fills the first block of the 32-byte \<open>ivec\<close>: the first
  \<open>sizeof(iv_seed) = 8\<close> bytes of \<open>iv_ext_val\<close>, then the 8 bytes of the seed as they lie in
  memory, encrypted as one block under \<open>iv_enc_key\<close>.
\<close>

definition set_aes_cbc_iv ::
  "'k platform \<Rightarrow> 'k transop_aes \<Rightarrow> uint8_t list \<Rightarrow> uint64_t \<Rightarrow> uint8_t list" where
  "set_aes_cbc_iv E priv ivec iv_seed =
     (let iv_full = take 8 (iv_ext_val priv) @ host_bytes (host_order E) 8 iv_seed
      in AES_ecb_encrypt E iv_full (iv_enc_key priv) AES_ENCRYPT @ drop AES_BLOCK_SIZE ivec)"

text \<open>
  \<open>transop_encode_aes\<close>. The three calls of \<open>rand()\<close> are the arguments \<open>rand_hi\<close> (left
  operand of the seed), \<open>rand_lo\<close> (right operand) and \<open>rand_nonce\<close>. \<open>out_len\<close> and \<open>in_len\<close>
  are the sizes of the two buffers. The result is the returned \<open>int\<close> and the output buffer.
\<close>

definition transop_encode_aes ::
  "'k platform \<Rightarrow> 'k transop_aes \<Rightarrow> uint8_t list \<Rightarrow> uint8_t list \<Rightarrow>
     c_int \<Rightarrow> c_int \<Rightarrow> c_int \<Rightarrow> (c_int \<times> uint8_t list) option" where
  "transop_encode_aes E priv outbuf inbuf rand_hi rand_lo rand_nonce =
     (let out_len = (of_nat (length outbuf) :: size_t);
          in_len = (of_nat (length inbuf) :: size_t);
          len2 = (- 1 :: c_int);
          assembly = replicate (N2N_PKT_BUF_SIZE E) (0 :: uint8_t)
      in
      if in_len + of_nat TRANSOP_AES_NONCE_SIZE \<le> of_nat (N2N_PKT_BUF_SIZE E) then
        if in_len + of_nat TRANSOP_AES_NONCE_SIZE + of_nat TRANSOP_AES_PREAMBLE_SIZE \<le> out_len then
          do {
            let idx = 0;
            let tx_sa_num = (0 :: size_t);
            let enc_ivec = replicate N2N_AES_IVEC_SIZE (0 :: uint8_t);
            (outbuf, idx) \<leftarrow> encode_uint8 outbuf idx N2N_AES_TRANSFORM_VERSION;
            (outbuf, idx) \<leftarrow> encode_uint32 outbuf idx (ucast tx_sa_num);
            let iv_seed = push_bit 32 ((scast rand_hi :: uint64_t) AND 0xFFFFFFFF) OR scast rand_lo;
            (outbuf, idx) \<leftarrow> encode_buf outbuf idx (host_bytes (host_order E) 8 iv_seed);
            let len = (ucast (in_len + of_nat TRANSOP_AES_NONCE_SIZE) :: c_int);
            assembly \<leftarrow> memcpy_to assembly 0 (host_bytes (host_order E) 4 (ucast rand_nonce :: uint32_t));
            assembly \<leftarrow> memcpy_to assembly TRANSOP_AES_NONCE_SIZE inbuf;
            let len2 = (c_div len (of_nat AES_BLOCK_SIZE) + 1) * of_nat AES_BLOCK_SIZE;
            let padding = (ucast (len2 - len) :: uint8_t);
            assembly \<leftarrow> poke assembly (len2 - 1) padding;
            let enc_ivec = set_aes_cbc_iv E priv enc_ivec iv_seed;
            src \<leftarrow> mem_read assembly 0 (unat (scast len2 :: size_t));
            outbuf \<leftarrow> memcpy_to outbuf TRANSOP_AES_PREAMBLE_SIZE
                       (AES_cbc_encrypt E src (unat (scast len2 :: size_t)) (enc_key priv) enc_ivec AES_ENCRYPT);
            Some (len2 + of_nat TRANSOP_AES_PREAMBLE_SIZE, outbuf)
          }
        else Some (len2, outbuf)
      else Some (len2, outbuf))"

text \<open>
  \<open>transop_decode_aes\<close>. Its \<open>assembly\<close> array is not initialised; the decrypted bytes are
  written to its start before anything is read from it. \<open>out_len\<close> is not consulted.
\<close>

definition transop_decode_aes ::
  "'k platform \<Rightarrow> 'k transop_aes \<Rightarrow> uint8_t list \<Rightarrow> uint8_t list \<Rightarrow> (c_int \<times> uint8_t list) option" where
  "transop_decode_aes E priv outbuf inbuf =
     (let in_len = (of_nat (length inbuf) :: size_t);
          len = (0 :: c_int);
          assembly = replicate (N2N_PKT_BUF_SIZE E) (0 :: uint8_t)
      in
      if in_len - of_nat TRANSOP_AES_PREAMBLE_SIZE \<le> of_nat (N2N_PKT_BUF_SIZE E)
         \<and> in_len \<ge> of_nat (TRANSOP_AES_PREAMBLE_SIZE + TRANSOP_AES_NONCE_SIZE) then
        do {
          let rem = in_len;
          let idx = 0;
          (aes_enc_ver, rem, idx) \<leftarrow> decode_uint8 inbuf rem idx;
          if N2N_AES_TRANSFORM_VERSION = aes_enc_ver then
            do {
              (sa_rx, rem, idx) \<leftarrow> decode_uint32 inbuf rem idx;
              (seed_mem, rem, idx) \<leftarrow> decode_buf 8 inbuf rem idx;
              let iv_seed = (host_word (host_order E) seed_mem :: uint64_t);
              let len = (ucast (in_len - of_nat TRANSOP_AES_PREAMBLE_SIZE) :: c_int);
              if 0 = c_mod len (of_nat AES_BLOCK_SIZE) then
                do {
                  let dec_ivec = set_aes_cbc_iv E priv (replicate N2N_AES_IVEC_SIZE 0) iv_seed;
                  src \<leftarrow> mem_read inbuf TRANSOP_AES_PREAMBLE_SIZE (unat (scast len :: size_t));
                  assembly \<leftarrow> memcpy_to assembly 0
                      (AES_cbc_encrypt E src (unat (scast len :: size_t)) (dec_key priv) dec_ivec AES_DECRYPT);
                  last_byte \<leftarrow> peek assembly (len - 1);
                  let padding = last_byte AND 0xff;
                  if (ucast padding + of_nat TRANSOP_AES_NONCE_SIZE :: c_int) \<le>s len then
                    do {
                      let len = len - ucast padding;
                      let len = len - of_nat TRANSOP_AES_NONCE_SIZE;
                      src \<leftarrow> mem_read assembly TRANSOP_AES_NONCE_SIZE (unat (scast len :: size_t));
                      outbuf \<leftarrow> memcpy_to outbuf 0 src;
                      Some (len, outbuf)
                    }
                  else Some (len, outbuf)
                }
              else Some (0, outbuf)
            }
          else Some (len, outbuf)
        }
      else Some (len, outbuf))"

section \<open>What the transform relies on\<close>

text \<open>
  The C type \<open>int\<close> has 32 bits: lengths up to the scratch size plus one block and the
  preamble must be representable.
\<close>

definition int_holds_lengths :: "'k platform \<Rightarrow> bool" where
  "int_holds_lengths E \<longleftrightarrow> N2N_PKT_BUF_SIZE E + 29 < 2 ^ 31"

text \<open>
  AES maps a 16-byte block to a 16-byte block, and decryption under the decrypt schedule
  of a user key undoes encryption under the encrypt schedule of the same user key.
\<close>

definition aes_blocks :: "'k platform \<Rightarrow> bool" where
  "aes_blocks E \<longleftrightarrow>
     (\<forall>k b. length b = 16 \<longrightarrow> length (AES_encrypt E k b) = 16)"

definition aes_inverse :: "'k platform \<Rightarrow> bool" where
  "aes_inverse E \<longleftrightarrow>
     (\<forall>ukey bits b. length b = 16 \<longrightarrow>
        AES_decrypt E (AES_set_decrypt_key E ukey bits)
          (AES_encrypt E (AES_set_encrypt_key E ukey bits) b) = b)"

text \<open>
  A small executable platform on which the statements below are instantiated: a
  2048-byte scratch buffer, a little-endian host, a 64-byte stand-in for the hash, and a
  key-dependent byte-wise stand-in for the block cipher.
\<close>

definition demo_platform :: "uint8_t list platform" where
  "demo_platform =
     \<lparr> N2N_PKT_BUF_SIZE = 2048,
       host_order = LittleEndian,
       SHA512 = (\<lambda>m. take 64 (m @ replicate 64 0)),
       AES_set_encrypt_key = (\<lambda>ukey bits. take (bits div 8) ukey),
       AES_set_decrypt_key = (\<lambda>ukey bits. take (bits div 8) ukey),
       AES_encrypt = (\<lambda>k b. map (\<lambda>x. x + of_nat (length k) + 1) b),
       AES_decrypt = (\<lambda>k b. map (\<lambda>x. x - of_nat (length k) - 1) b) \<rparr>"

definition demo_priv :: "uint8_t list transop_aes" where
  "demo_priv = \<lparr> enc_key = [], dec_key = [], iv_enc_key = [], iv_ext_val = replicate 16 0 \<rparr>"

definition demo_secret :: "uint8_t list" where
  "demo_secret = [0x70, 0x61, 0x73, 0x73, 0x77, 0x6f, 0x72, 0x64]"

section \<open>Key setup and IV derivation: properties\<close>


lemmas size_defs = AES256_KEY_BYTES_def AES192_KEY_BYTES_def AES128_KEY_BYTES_def AES_BLOCK_SIZE_def
  N2N_AES_TRANSFORM_VERSION_def N2N_AES_IVEC_SIZE_def TRANSOP_AES_VER_SIZE_def TRANSOP_AES_SA_SIZE_def
  TRANSOP_AES_IV_SEED_SIZE_def TRANSOP_AES_PREAMBLE_SIZE_def TRANSOP_AES_NONCE_SIZE_def

lemma aes_best_keysize_of_nat:
  assumes "n < 2 ^ 64"
  shows "aes_best_keysize (of_nat n) = (if 32 \<le> n then 32 else if 24 \<le> n then 24 else 16)"
  using assms by (simp add: aes_best_keysize_def size_defs word_le_nat_alt unat_of_nat)

lemma le_bytes_length: "length (le_bytes n w) = n"
  by (simp add: le_bytes_def)

lemma host_bytes_length: "length (host_bytes bo n w) = n"
  by (cases bo) (simp_all add: host_bytes_def le_bytes_length)

lemma rcat_le_bytes:
  assumes "LENGTH('a::len) \<le> 8 * n"
  shows "word_rcat (rev (le_bytes n (w :: 'a word))) = w"
proof (rule bit_word_eqI)
  fix i assume i: "i < LENGTH('a)"
  then have d: "i div 8 < n" using assms by (simp add: less_mult_imp_div_less mult.commute)
  have "bit (word_rcat (rev (le_bytes n w)) :: 'a word) i
        = bit (horner_sum uint (2 ^ LENGTH(8)) (le_bytes n w)) i"
    using i by (simp only: word_rcat_def comp_def rev_rev_ident bit_word_of_int_iff) simp
  also have "\<dots> = bit w i"
    using i d
    by (simp only: bit_horner_sum_uint_exp_iff)
       (simp add: le_bytes_def bit_ucast_iff bit_drop_bit_eq)
  finally show "bit (word_rcat (rev (le_bytes n w)) :: 'a word) i = bit w i" .
qed

lemma host_word_bytes:
  "host_word bo (host_bytes bo 8 (w :: 64 word)) = w"
  by (cases bo) (simp_all add: host_word_def host_bytes_def rcat_le_bytes)

lemma setup_aes_key_fields:
  assumes "length key < 2 ^ 64"
  shows "setup_aes_key E priv key =
     (\<lparr> enc_key = AES_set_encrypt_key E (take 32 (SHA512 E key))
                    (if 32 \<le> length key then 256 else if 24 \<le> length key then 192 else 128),
        dec_key = AES_set_decrypt_key E (take 32 (SHA512 E key))
                    (if 32 \<le> length key then 256 else if 24 \<le> length key then 192 else 128),
        iv_enc_key = AES_set_encrypt_key E (take 16 (drop 32 (SHA512 E key))) 128,
        iv_ext_val = take 16 (drop 48 (SHA512 E key)) \<rparr>, 0)"
  using assms
  by (simp add: setup_aes_key_def Let_def aes_best_keysize_of_nat keybuf_of_digest_def size_defs)

text \<open>
  C5. The bulk key length is chosen from the length of the secret, not from the digest:
  a secret of at least 32 bytes selects 256 bits, one of 24 to 31 bytes selects 192 bits,
  any shorter one 128 bits, and these are the bits handed to both key schedules together
  with the first digest slice. In particular lengths 8, 24 and 32 give 128, 192 and 256.
\<close>

theorem key_size_selection:
  assumes "length key < 2 ^ 64"
  shows "(let bits = (if 32 \<le> length key then 256 else if 24 \<le> length key then 192 else 128);
              priv' = fst (setup_aes_key E priv key)
          in 8 * unat (aes_best_keysize (of_nat (length key))) = bits
             \<and> enc_key priv' = AES_set_encrypt_key E (kb_enc_dec_key (keybuf_of_digest (SHA512 E key))) bits
             \<and> dec_key priv' = AES_set_decrypt_key E (kb_enc_dec_key (keybuf_of_digest (SHA512 E key))) bits)
         \<and> 8 * unat (aes_best_keysize 8) = 128
         \<and> 8 * unat (aes_best_keysize 24) = 192
         \<and> 8 * unat (aes_best_keysize 32) = 256"
  using assms
  by (simp add: setup_aes_key_fields Let_def aes_best_keysize_of_nat keybuf_of_digest_def size_defs)
     (simp add: aes_best_keysize_def size_defs)

theorem key_size_selection_witness:
  "length demo_secret < 2 ^ 64
   \<and> 8 * unat (aes_best_keysize (of_nat (length demo_secret))) = 128
   \<and> enc_key (fst (setup_aes_key demo_platform demo_priv demo_secret))
       = AES_set_encrypt_key demo_platform
           (kb_enc_dec_key (keybuf_of_digest (SHA512 demo_platform demo_secret))) 128"
proof -
  have h: "length demo_secret < 2 ^ 64" by (simp add: demo_secret_def)
  show ?thesis
    using h key_size_selection [OF h, of demo_platform demo_priv]
    by (simp add: demo_secret_def Let_def)
qed

text \<open>
  C6. The 64-byte digest of the secret is cut into three slices that follow one another
  without overlap: bytes 0 to 31 are the bulk key material, bytes 32 to 47 the 128-bit
  key of the IV cipher, bytes 48 to 63 the IV extension value. The state after setup is
  determined by the secret alone: whatever the state held before, the result is the same.
\<close>

theorem key_derivation_partition:
  assumes "length (SHA512 E key) = SHA512_DIGEST_LENGTH" and "length key < 2 ^ 64"
  shows "(let md = SHA512 E key;
              kb = keybuf_of_digest md;
              bits = 8 * unat (aes_best_keysize (of_nat (length key)));
              (priv', rc) = setup_aes_key E priv key
          in kb_enc_dec_key kb = take 32 md
             \<and> kb_iv_enc_key kb = take 16 (drop 32 md)
             \<and> kb_iv_ext_val kb = drop 48 md
             \<and> kb_enc_dec_key kb @ kb_iv_enc_key kb @ kb_iv_ext_val kb = md
             \<and> rc = 0
             \<and> enc_key priv' = AES_set_encrypt_key E (kb_enc_dec_key kb) bits
             \<and> dec_key priv' = AES_set_decrypt_key E (kb_enc_dec_key kb) bits
             \<and> iv_enc_key priv' = AES_set_encrypt_key E (kb_iv_enc_key kb) 128
             \<and> iv_ext_val priv' = kb_iv_ext_val kb
             \<and> setup_aes_key E priv0 key = setup_aes_key E priv key)"
proof -
  have cat: "take 32 md @ take 16 (drop 32 md) @ drop 48 md = md" for md :: "uint8_t list"
  proof -
    have "drop 48 md = drop 16 (drop 32 md)" by simp
    then show ?thesis by (simp only: append_take_drop_id)
  qed
  show ?thesis
    using assms
    by (simp add: setup_aes_key_fields Let_def aes_best_keysize_of_nat keybuf_of_digest_def
        size_defs SHA512_DIGEST_LENGTH_def cat)
qed

theorem key_derivation_partition_witness:
  "length (SHA512 demo_platform demo_secret) = SHA512_DIGEST_LENGTH
   \<and> iv_ext_val (fst (setup_aes_key demo_platform demo_priv demo_secret))
       = drop 48 (SHA512 demo_platform demo_secret)
   \<and> setup_aes_key demo_platform \<lparr>enc_key = [1], dec_key = [2], iv_enc_key = [3], iv_ext_val = [4]\<rparr> demo_secret
       = setup_aes_key demo_platform demo_priv demo_secret"
proof -
  have h1: "length (SHA512 demo_platform demo_secret) = SHA512_DIGEST_LENGTH"
    by (simp add: demo_platform_def demo_secret_def SHA512_DIGEST_LENGTH_def)
  have h2: "length demo_secret < 2 ^ 64" by (simp add: demo_secret_def)
  show ?thesis
    using h1 key_derivation_partition [OF h1 h2, of demo_priv "\<lparr>enc_key = [1], dec_key = [2], iv_enc_key = [3], iv_ext_val = [4]\<rparr>"]
    by (simp add: Let_def split: prod.splits)
qed

text \<open>
  C7. The IV is the encryption, as a single block under \<open>iv_enc_key\<close>, of the block
  made of the first 8 bytes of \<open>iv_ext_val\<close> followed by the 8 bytes of the seed as the
  host stores them. It is a function of the state and the seed only (the previous
  contents of \<open>ivec\<close> play no part) and it always returns.
\<close>

theorem iv_derivation:
  assumes "aes_blocks E" and "length (iv_ext_val priv) = AES128_KEY_BYTES"
  shows "(let block = take 8 (iv_ext_val priv) @ host_bytes (host_order E) 8 seed
          in length block = AES_BLOCK_SIZE
             \<and> host_word (host_order E) (drop 8 block) = seed
             \<and> take AES_BLOCK_SIZE (set_aes_cbc_iv E priv ivec seed)
                 = AES_encrypt E (iv_enc_key priv) block)"
  using assms
  by (simp add: Let_def set_aes_cbc_iv_def AES_ecb_encrypt_def aes_blocks_def size_defs
      host_bytes_length host_word_bytes)

lemma demo_aes_blocks: "aes_blocks demo_platform"
  by (simp add: aes_blocks_def demo_platform_def)

theorem iv_derivation_witness:
  "aes_blocks demo_platform \<and> length (iv_ext_val demo_priv) = AES128_KEY_BYTES
   \<and> take AES_BLOCK_SIZE (set_aes_cbc_iv demo_platform demo_priv (replicate 32 0) 5)
       = AES_encrypt demo_platform (iv_enc_key demo_priv)
           (take 8 (iv_ext_val demo_priv) @ host_bytes (host_order demo_platform) 8 (5 :: uint64_t))"
proof -
  have h: "length (iv_ext_val demo_priv) = AES128_KEY_BYTES"
    by (simp add: demo_priv_def size_defs)
  show ?thesis
    using h demo_aes_blocks iv_derivation [OF demo_aes_blocks h, of 5 "replicate 32 0"]
    by (simp add: Let_def)
qed

section \<open>Decoding: rejected frames\<close>

text \<open>
  C10. A frame shorter than the preamble plus the nonce (17 bytes) is rejected: decode
  returns 0 and leaves the output buffer as it was, whatever the platform and the keys,
  so nothing is parsed or decrypted. This includes frames shorter than the 13-byte
  preamble, where \<open>in_len - 13\<close> wraps around.
\<close>

theorem short_frame_rejected:
  assumes "length inbuf < TRANSOP_AES_PREAMBLE_SIZE + TRANSOP_AES_NONCE_SIZE"
  shows "transop_decode_aes E priv outbuf inbuf = Some (0, outbuf)"
proof -
  have "unat (of_nat (length inbuf) :: size_t) = length inbuf"
    using assms by (simp add: unat_of_nat size_defs)
  then have "\<not> (of_nat (length inbuf) :: size_t) \<ge> of_nat (TRANSOP_AES_PREAMBLE_SIZE + TRANSOP_AES_NONCE_SIZE)"
    using assms by (simp add: word_le_nat_alt size_defs)
  then show ?thesis
    by (simp add: transop_decode_aes_def Let_def)
qed

theorem short_frame_rejected_witness:
  "length [1, 0, 0, 0 :: uint8_t] < TRANSOP_AES_PREAMBLE_SIZE + TRANSOP_AES_NONCE_SIZE
   \<and> transop_decode_aes demo_platform demo_priv [9, 9] [1, 0, 0, 0] = Some (0, [9, 9])"
proof -
  have h: "length [1, 0, 0, 0 :: uint8_t] < TRANSOP_AES_PREAMBLE_SIZE + TRANSOP_AES_NONCE_SIZE"
    by (simp add: size_defs)
  show ?thesis
    using h short_frame_rejected [OF h, of demo_platform demo_priv "[9, 9]"] by simp
qed

lemma decode_uint8_first:
  assumes "inbuf \<noteq> []"
  shows "decode_uint8 inbuf rem 0 = Some (hd inbuf, rem - 1, 1)"
  using assms by (cases inbuf) (simp_all add: decode_uint8_def mem_read_def)

text \<open>
  C8. A frame whose first byte is not the version 1 is rejected: decode returns 0 and
  leaves the output buffer as it was, whatever the rest of the frame.
\<close>

theorem version_gating:
  assumes "inbuf \<noteq> []" and "hd inbuf \<noteq> N2N_AES_TRANSFORM_VERSION"
  shows "transop_decode_aes E priv outbuf inbuf = Some (0, outbuf)"
  using assms
  by (simp add: transop_decode_aes_def Let_def decode_uint8_first)

theorem version_gating_witness:
  "replicate 29 (2 :: uint8_t) \<noteq> [] \<and> hd (replicate 29 (2 :: uint8_t)) \<noteq> N2N_AES_TRANSFORM_VERSION
   \<and> transop_decode_aes demo_platform demo_priv [9, 9] (replicate 29 2) = Some (0, [9, 9])"
proof -
  have h1: "replicate 29 (2 :: uint8_t) \<noteq> []" by simp
  have h2: "hd (replicate 29 (2 :: uint8_t)) \<noteq> N2N_AES_TRANSFORM_VERSION"
    by (simp add: size_defs)
  show ?thesis
    using h1 h2 version_gating [OF h1 h2, of demo_platform demo_priv "[9, 9]"] by simp
qed

section \<open>Integer conversions, memory and chaining: auxiliary facts\<close>

lemma sint_of_nat32:
  assumes "k < 2 ^ 31"
  shows "sint (of_nat k :: c_int) = int k"
proof -
  have "signed_take_bit 31 (int k) = int k"
    using assms by (simp add: signed_take_bit_int_eq_self)
  then show ?thesis by (simp add: signed_of_nat)
qed

lemma unat_of_nat64:
  assumes "k < 2 ^ 31"
  shows "unat (of_nat k :: size_t) = k"
proof -
  have "k < 2 ^ 64" using assms by simp
  then show ?thesis by (simp add: unat_of_nat)
qed


lemma ucast_size_to_int:
  assumes "k < 2 ^ 31"
  shows "(ucast (of_nat k :: size_t) :: c_int) = of_nat k"
proof -
  have "k < 2 ^ 64" using assms by simp
  then have "take_bit 64 k = k" by (simp add: take_bit_nat_eq_self)
  then show ?thesis by (simp add: unsigned_of_nat)
qed

lemma scast_int_to_size:
  assumes "k < 2 ^ 31"
  shows "unat (scast (of_nat k :: c_int) :: size_t) = k"
proof -
  have "(scast (of_nat k :: c_int) :: size_t) = of_int (sint (of_nat k :: c_int))"
    by (simp only: scast_eq)
  also have "\<dots> = of_nat k" by (simp only: sint_of_nat32 [OF assms] of_int_of_nat_eq)
  finally show ?thesis by (simp only: unat_of_nat64 [OF assms])
qed

lemma c_div_of_nat:
  assumes "k < 2 ^ 31"
  shows "c_div (of_nat k) (of_nat AES_BLOCK_SIZE) = of_nat (k div 16)"
proof -
  have "int k sdiv 16 = int k div 16"
    by (simp add: signed_divide_int_def sgn_if)
  also have "\<dots> = int (k div 16)" by (simp add: zdiv_int)
  finally have "int k sdiv 16 = int (k div 16)" .
  moreover have "sint (of_nat AES_BLOCK_SIZE :: c_int) = 16" by (simp add: AES_BLOCK_SIZE_def)
  ultimately show ?thesis
    by (simp only: c_div_def sint_of_nat32 [OF assms] of_int_of_nat_eq)
qed

lemma c_mod_of_nat:
  assumes "k < 2 ^ 31"
  shows "c_mod (of_nat k) (of_nat AES_BLOCK_SIZE) = of_nat (k mod 16)"
proof -
  have "int k smod 16 = int k mod 16"
    by (simp add: smod_int_alt_def signed_divide_int_def sgn_if minus_div_mult_eq_mod)
  also have "\<dots> = int (k mod 16)" by (simp add: zmod_int)
  finally have "int k smod 16 = int (k mod 16)" .
  moreover have "sint (of_nat AES_BLOCK_SIZE :: c_int) = 16" by (simp add: AES_BLOCK_SIZE_def)
  ultimately show ?thesis
    by (simp only: c_mod_def sint_of_nat32 [OF assms] of_int_of_nat_eq)
qed

lemma memcpy_to_after:
  assumes "length src = k" and "k \<le> length b" and "off = length a"
  shows "memcpy_to (a @ b) off src = Some (a @ src @ drop k b)"
  using assms by (simp add: memcpy_to_def)

lemma host_bytes_zero32: "host_bytes BigEndian 4 (0 :: uint32_t) = [0, 0, 0, 0]"
  by (simp add: host_bytes_def le_bytes_def upt_rec)

lemma padded_len_bounds:
  fixes n :: nat
  defines "L \<equiv> ((n + 4) div 16 + 1) * 16"
  shows "n + 5 \<le> L" and "L \<le> n + 20" and "L mod 16 = 0" and "L div 16 = (n + 4) div 16 + 1"
  unfolding L_def by (simp_all add: algebra_simps)

lemma write_version:
  assumes "13 \<le> length outbuf"
  shows "encode_uint8 outbuf 0 N2N_AES_TRANSFORM_VERSION = Some ([1] @ drop 1 outbuf, 1)"
proof -
  have "memcpy_to ([] @ outbuf) 0 [1] = Some ([] @ [1] @ drop 1 outbuf)"
    using assms by (intro memcpy_to_after) simp_all
  then show ?thesis by (simp add: encode_uint8_def N2N_AES_TRANSFORM_VERSION_def)
qed

lemma write_sa:
  assumes "13 \<le> length outbuf"
  shows "encode_uint32 ([1] @ drop 1 outbuf) 1 0 = Some ([1, 0, 0, 0, 0] @ drop 5 outbuf, 5)"
proof -
  have "memcpy_to ([1] @ drop 1 outbuf) 1 [0, 0, 0, 0] = Some ([1] @ [0, 0, 0, 0] @ drop 4 (drop 1 outbuf))"
    using assms by (intro memcpy_to_after) simp_all
  moreover have "drop 4 (drop 1 outbuf) = drop 5 outbuf" by simp
  ultimately show ?thesis by (simp add: encode_uint32_def host_bytes_zero32)
qed

lemma write_seed:
  assumes "13 \<le> length outbuf" and "length seedm = 8"
  shows "encode_buf ([1, 0, 0, 0, 0] @ drop 5 outbuf) 5 seedm
           = Some ([1, 0, 0, 0, 0] @ seedm @ drop 13 outbuf, 13)"
proof -
  have "memcpy_to ([1, 0, 0, 0, 0] @ drop 5 outbuf) 5 seedm
          = Some ([1, 0, 0, 0, 0] @ seedm @ drop 8 (drop 5 outbuf))"
    using assms by (intro memcpy_to_after) simp_all
  moreover have "drop 8 (drop 5 outbuf) = drop 13 outbuf" by simp
  ultimately show ?thesis using assms by (simp add: encode_buf_def)
qed

lemma replicate_update:
  assumes "i < a"
  shows "(replicate a x)[i := v] = replicate i x @ [v] @ replicate (a - i - 1) x"
  using assms by (simp add: upd_conv_take_nth_drop min_def)

lemma sint_pred_of_nat:
  assumes "0 < L" and "L < 2 ^ 31"
  shows "sint (of_nat L - 1 :: c_int) = int L - 1"
proof -
  have "(of_nat L - 1 :: c_int) = of_nat (L - 1)" using assms(1) by (simp add: of_nat_diff)
  moreover have "L - 1 < 2 ^ 31" using assms(2) by simp
  then have "sint (of_nat (L - 1) :: c_int) = int (L - 1)" by (rule sint_of_nat32)
  moreover have "int (L - 1) = int L - 1" using assms(1) by (simp add: of_nat_diff)
  ultimately show ?thesis by (simp only:)
qed

lemma fill_assembly:
  fixes inbuf nonce :: "uint8_t list"
  assumes "length nonce = 4" and "length inbuf + 4 \<le> M"
  shows "memcpy_to (replicate M 0) 0 nonce = Some (nonce @ replicate (M - 4) 0)"
    and "memcpy_to (nonce @ replicate (M - 4) 0) 4 inbuf
           = Some (nonce @ inbuf @ replicate (M - 4 - length inbuf) 0)"
proof -
  have "memcpy_to ([] @ replicate M 0) 0 nonce = Some ([] @ nonce @ drop 4 (replicate M 0))"
    using assms by (intro memcpy_to_after) simp_all
  then show "memcpy_to (replicate M 0) 0 nonce = Some (nonce @ replicate (M - 4) 0)" by simp
  have "memcpy_to (nonce @ replicate (M - 4) 0) 4 inbuf
          = Some (nonce @ inbuf @ drop (length inbuf) (replicate (M - 4) 0))"
    using assms by (intro memcpy_to_after) simp_all
  then show "memcpy_to (nonce @ replicate (M - 4) 0) 4 inbuf
           = Some (nonce @ inbuf @ replicate (M - 4 - length inbuf) 0)" by simp
qed

lemma poke_padding:
  fixes inbuf nonce :: "uint8_t list"
  assumes "length nonce = 4" and "length inbuf + 5 \<le> L" and "L \<le> M" and "L < 2 ^ 31"
  shows "poke (nonce @ inbuf @ replicate (M - 4 - length inbuf) 0) (of_nat L - 1) v
           = Some (nonce @ inbuf @ replicate (L - (length inbuf + 4) - 1) 0 @ [v] @ replicate (M - L) 0)"
proof -
  let ?n = "length inbuf"
  have i: "sint (of_nat L - 1 :: c_int) = int L - 1"
    using assms by (intro sint_pred_of_nat) simp_all
  then have ni: "nat (sint (of_nat L - 1 :: c_int)) = L - 1" by simp
  have a: "\<not> L - 1 < length nonce" and b: "\<not> L - 1 - length nonce < length inbuf"
    using assms by simp_all
  have "(nonce @ inbuf @ replicate (M - 4 - ?n) 0)[L - 1 := v]
          = nonce @ inbuf @ (replicate (M - 4 - ?n) 0)[L - 1 - length nonce - ?n := v]"
    using a b by (simp only: list_update_append if_False)
  then have "(nonce @ inbuf @ replicate (M - 4 - ?n) 0)[L - 1 := v]
          = nonce @ inbuf @ (replicate (M - 4 - ?n) 0)[L - 1 - 4 - ?n := v]"
    by (simp only: assms(1))
  moreover have "(replicate (M - 4 - ?n) (0 :: uint8_t))[L - 1 - 4 - ?n := v]
          = replicate (L - 1 - 4 - ?n) 0 @ [v] @ replicate (M - 4 - ?n - (L - 1 - 4 - ?n) - 1) 0"
    using assms by (intro replicate_update) simp
  moreover have "L - 1 - 4 - ?n = L - (?n + 4) - 1" and "M - 4 - ?n - (L - 1 - 4 - ?n) - 1 = M - L"
    using assms by simp_all
  ultimately have "(nonce @ inbuf @ replicate (M - 4 - ?n) 0)[L - 1 := v]
          = nonce @ inbuf @ replicate (L - (?n + 4) - 1) 0 @ [v] @ replicate (M - L) 0"
    by (simp only:)
  moreover have "0 \<le> sint (of_nat L - 1 :: c_int)" using assms i by simp
  moreover have "L - 1 < length (nonce @ inbuf @ replicate (M - 4 - ?n) 0)" using assms by simp
  ultimately show ?thesis by (simp only: poke_def ni if_True simp_thms)
qed

lemma poke_overrun:
  fixes buf :: "uint8_t list"
  assumes "length buf < L" and "L < 2 ^ 31"
  shows "poke buf (of_nat L - 1) v = None"
proof -
  have "sint (of_nat L - 1 :: c_int) = int L - 1"
    using assms by (intro sint_pred_of_nat) simp_all
  then have "nat (sint (of_nat L - 1 :: c_int)) = L - 1" by simp
  moreover have "\<not> L - 1 < length buf" using assms by simp
  ultimately show ?thesis by (simp only: poke_def simp_thms if_False)
qed

lemma unat_of_nat_size:
  assumes "k < 2 ^ 64"
  shows "unat (of_nat k :: size_t) = k"
  using assms by (simp add: unat_of_nat)

lemma encode_guard_in:
  assumes "n + 4 \<le> M" and "M < 2 ^ 64"
  shows "(of_nat n :: size_t) + of_nat TRANSOP_AES_NONCE_SIZE \<le> of_nat M"
proof -
  have "(of_nat n :: size_t) + of_nat TRANSOP_AES_NONCE_SIZE = of_nat (n + 4)"
    by (simp add: size_defs)
  moreover have "unat (of_nat (n + 4) :: size_t) = n + 4" and "unat (of_nat M :: size_t) = M"
    using assms by (simp_all only: unat_of_nat_size)
  ultimately show ?thesis using assms by (simp only: word_le_nat_alt)
qed

lemma encode_guard_out:
  assumes "n + 17 < 2 ^ 64" and "c < 2 ^ 64"
  shows "((of_nat n :: size_t) + of_nat TRANSOP_AES_NONCE_SIZE + of_nat TRANSOP_AES_PREAMBLE_SIZE \<le> of_nat c)
           \<longleftrightarrow> n + 17 \<le> c"
proof -
  have "(of_nat n :: size_t) + of_nat TRANSOP_AES_NONCE_SIZE + of_nat TRANSOP_AES_PREAMBLE_SIZE = of_nat (n + 17)"
    by (simp add: size_defs)
  moreover have "unat (of_nat (n + 17) :: size_t) = n + 17" and "unat (of_nat c :: size_t) = c"
    using assms by (simp_all only: unat_of_nat_size)
  ultimately show ?thesis by (simp only: word_le_nat_alt)
qed

lemma encode_len:
  assumes "n + 4 < 2 ^ 31"
  shows "(ucast ((of_nat n :: size_t) + of_nat TRANSOP_AES_NONCE_SIZE) :: c_int) = of_nat (n + 4)"
proof -
  have "(of_nat n :: size_t) + of_nat TRANSOP_AES_NONCE_SIZE = of_nat (n + 4)"
    by (simp add: size_defs)
  then show ?thesis using assms by (simp only: ucast_size_to_int)
qed

lemma encode_len2:
  assumes "k < 2 ^ 31"
  shows "(c_div (of_nat k) (of_nat AES_BLOCK_SIZE) + 1) * of_nat AES_BLOCK_SIZE
           = (of_nat ((k div 16 + 1) * 16) :: c_int)"
  using assms by (simp only: c_div_of_nat) (simp add: AES_BLOCK_SIZE_def)

lemma encode_padding:
  assumes "k \<le> L" and "L < 2 ^ 31"
  shows "(ucast ((of_nat L :: c_int) - of_nat k) :: uint8_t) = of_nat (L - k)"
proof -
  have "(of_nat L :: c_int) - of_nat k = of_nat (L - k)" using assms by (simp add: of_nat_diff)
  moreover have "take_bit 32 (L - k) = L - k"
    using assms by (intro take_bit_nat_eq_self) simp
  ultimately show ?thesis by (simp add: unsigned_of_nat)
qed

lemma encode_ret:
  "(of_nat L :: c_int) + of_nat TRANSOP_AES_PREAMBLE_SIZE = of_nat (L + 13)"
  by (simp add: size_defs)

lemma encode_steps_guarded:
  fixes E :: "'k platform" and inbuf outbuf :: "uint8_t list" and rand_hi rand_lo rand_nonce :: c_int
  defines "n \<equiv> length inbuf"
  defines "M \<equiv> N2N_PKT_BUF_SIZE E"
  defines "L \<equiv> ((n + 4) div 16 + 1) * 16"
  defines "seed \<equiv> push_bit 32 ((scast rand_hi :: uint64_t) AND 0xFFFFFFFF) OR scast rand_lo"
  defines "nonce \<equiv> host_bytes (host_order E) 4 (ucast rand_nonce :: uint32_t)"
  assumes "int_holds_lengths E" and "n + 4 \<le> M" and "13 \<le> length outbuf"
    and "(of_nat (length inbuf) :: size_t) + of_nat TRANSOP_AES_NONCE_SIZE + of_nat TRANSOP_AES_PREAMBLE_SIZE
           \<le> of_nat (length outbuf)"
  shows "transop_encode_aes E priv outbuf inbuf rand_hi rand_lo rand_nonce =
     do {
       assembly \<leftarrow> poke (nonce @ inbuf @ replicate (M - 4 - n) 0) (of_nat L - 1) (of_nat (L - (n + 4)));
       src \<leftarrow> mem_read assembly 0 L;
       outbuf' \<leftarrow> memcpy_to ([1, 0, 0, 0, 0] @ host_bytes (host_order E) 8 seed @ drop 13 outbuf) 13
                   (AES_cbc_encrypt E src L (enc_key priv)
                      (set_aes_cbc_iv E priv (replicate N2N_AES_IVEC_SIZE 0) seed) AES_ENCRYPT);
       Some (of_nat (L + 13), outbuf')
     }"
proof -
  have M: "M + 29 < 2 ^ 31" using assms by (simp add: int_holds_lengths_def)
  have Lb: "n + 5 \<le> L" "L \<le> n + 20"
    unfolding L_def by (rule padded_len_bounds)+
  have g1: "(of_nat (length inbuf) :: size_t) + of_nat TRANSOP_AES_NONCE_SIZE \<le> of_nat (N2N_PKT_BUF_SIZE E)"
    using assms M by (intro encode_guard_in) simp_all
  note g2 = assms(9)
  have len: "(ucast ((of_nat (length inbuf) :: size_t) + of_nat TRANSOP_AES_NONCE_SIZE) :: c_int) = of_nat (n + 4)"
    unfolding n_def using assms M by (intro encode_len) simp
  have len2: "(c_div (of_nat (n + 4)) (of_nat AES_BLOCK_SIZE) + 1) * of_nat AES_BLOCK_SIZE = (of_nat L :: c_int)"
    unfolding L_def using assms M by (intro encode_len2) simp
  have pad: "(ucast ((of_nat L :: c_int) - of_nat (n + 4)) :: uint8_t) = of_nat (L - (n + 4))"
    using assms M Lb by (intro encode_padding) simp_all
  have sz: "unat (scast (of_nat L :: c_int) :: size_t) = L"
    using assms M Lb by (intro scast_int_to_size) simp
  have w1: "encode_uint8 outbuf 0 N2N_AES_TRANSFORM_VERSION = Some ([1] @ drop 1 outbuf, 1)"
    using assms by (intro write_version) simp
  have w2: "encode_uint32 ([1] @ drop 1 outbuf) 1 0 = Some ([1, 0, 0, 0, 0] @ drop 5 outbuf, 5)"
    using assms by (intro write_sa) simp
  have w3: "encode_buf ([1, 0, 0, 0, 0] @ drop 5 outbuf) 5 (host_bytes (host_order E) 8 seed)
           = Some ([1, 0, 0, 0, 0] @ host_bytes (host_order E) 8 seed @ drop 13 outbuf, 13)"
    using assms by (intro write_seed) (simp_all add: host_bytes_length)
  have a1: "memcpy_to (replicate (N2N_PKT_BUF_SIZE E) 0) 0 nonce = Some (nonce @ replicate (M - 4) 0)"
    unfolding M_def [symmetric] using assms by (intro fill_assembly) (simp_all add: host_bytes_length)
  have a2: "memcpy_to (nonce @ replicate (M - 4) 0) TRANSOP_AES_NONCE_SIZE inbuf
           = Some (nonce @ inbuf @ replicate (M - 4 - n) 0)"
    unfolding n_def TRANSOP_AES_NONCE_SIZE_def
    using assms by (intro fill_assembly) (simp_all add: host_bytes_length)
  show ?thesis
    unfolding transop_encode_aes_def Let_def
    apply (simp only: g1 g2 if_True w1)
    apply (simp only: Option.bind.simps prod.case ucast_0 w2 seed_def [symmetric] w3 len nonce_def [symmetric] a1 a2 len2 pad sz encode_ret TRANSOP_AES_PREAMBLE_SIZE_def TRANSOP_AES_VER_SIZE_def TRANSOP_AES_SA_SIZE_def TRANSOP_AES_IV_SEED_SIZE_def)
    apply simp
    done
qed

lemma xor_cancel:
  fixes a b :: "uint8_t list"
  assumes "length a = length b"
  shows "map2 (XOR) (map2 (XOR) a b) b = a"
  using assms by (induction a b rule: list_induct2) (simp_all add: xor.assoc)

lemma cbc128_encrypt_length:
  assumes "\<And>b. length b = 16 \<Longrightarrow> length (enc b) = 16"
    and "length iv = 16" and "length inp = 16 * k"
  shows "length (cbc128_encrypt enc k iv inp) = 16 * k"
  using assms(2,3)
proof (induction k arbitrary: iv inp)
  case 0
  then show ?case by simp
next
  case (Suc k)
  have blk: "length (enc (map2 (XOR) (take 16 inp) iv)) = 16"
    using Suc.prems by (intro assms(1)) simp
  have "length (cbc128_encrypt enc k (enc (map2 (XOR) (take 16 inp) iv)) (drop 16 inp)) = 16 * k"
    using Suc.prems blk by (intro Suc.IH) simp_all
  then show ?case using blk by (simp add: Let_def)
qed

lemma cbc128_roundtrip:
  assumes "\<And>b. length b = 16 \<Longrightarrow> length (enc b) = 16"
    and "\<And>b. length b = 16 \<Longrightarrow> dec (enc b) = b"
    and "length iv = 16" and "length inp = 16 * k"
  shows "cbc128_decrypt dec k iv (cbc128_encrypt enc k iv inp) = inp"
  using assms(3,4)
proof (induction k arbitrary: iv inp)
  case 0
  then show ?case by simp
next
  case (Suc k)
  let ?x = "map2 (XOR) (take 16 inp) iv"
  let ?y = "enc ?x"
  have x: "length ?x = 16" using Suc.prems by simp
  have c: "length ?y = 16" using x by (rule assms(1))
  have d: "dec ?y = ?x" using x by (rule assms(2))
  have unmask: "map2 (XOR) ?x iv = take 16 inp"
    using Suc.prems by (intro xor_cancel) simp
  have rest: "cbc128_decrypt dec k ?y (cbc128_encrypt enc k ?y (drop 16 inp)) = drop 16 inp"
    using Suc.prems c by (intro Suc.IH) simp_all
  show ?case
    using c d unmask rest by (simp add: Let_def)
qed

lemma ivec_block_length:
  "length (take AES_BLOCK_SIZE (set_aes_cbc_iv E priv (replicate N2N_AES_IVEC_SIZE 0) seed)) = 16"
  by (simp add: set_aes_cbc_iv_def Let_def size_defs)

lemma AES_cbc_length:
  assumes "aes_blocks E" and "length inp = L" and "L mod 16 = 0"
  shows "length (AES_cbc_encrypt E inp L key (set_aes_cbc_iv E priv (replicate N2N_AES_IVEC_SIZE 0) seed) AES_ENCRYPT) = L"
proof -
  have "length (cbc128_encrypt (AES_encrypt E key) (L div 16)
          (take AES_BLOCK_SIZE (set_aes_cbc_iv E priv (replicate N2N_AES_IVEC_SIZE 0) seed)) inp) = 16 * (L div 16)"
    using assms by (intro cbc128_encrypt_length ivec_block_length) (auto simp add: aes_blocks_def)
  moreover have "16 * (L div 16) = L" using assms by presburger
  ultimately show ?thesis by (simp add: AES_cbc_encrypt_def AES_BLOCK_SIZE_def)
qed

lemma AES_cbc_roundtrip:
  assumes "aes_blocks E" and "aes_inverse E" and "length inp = L" and "L mod 16 = 0"
    and "ek = AES_set_encrypt_key E ukey bits" and "dk = AES_set_decrypt_key E ukey bits"
    and "length (take AES_BLOCK_SIZE ivec) = 16"
  shows "AES_cbc_encrypt E (AES_cbc_encrypt E inp L ek ivec AES_ENCRYPT) L dk ivec AES_DECRYPT = inp"
proof -
  have "cbc128_decrypt (AES_decrypt E dk) (L div 16) (take AES_BLOCK_SIZE ivec)
          (cbc128_encrypt (AES_encrypt E ek) (L div 16) (take AES_BLOCK_SIZE ivec) inp) = inp"
    using assms by (intro cbc128_roundtrip) (auto simp add: aes_blocks_def aes_inverse_def)
  then show ?thesis by (simp add: AES_cbc_encrypt_def AES_BLOCK_SIZE_def)
qed

lemma byte_mask: "(p :: uint8_t) AND 0xff = p"
proof -
  have "(0xff :: uint8_t) = - 1" by simp
  then show ?thesis by (simp only: and.right_neutral)
qed

lemma ucast_byte_int: "(ucast (p :: uint8_t) :: c_int) = of_nat (unat p)"
  by (simp add: of_nat_unat)

lemma unat_byte_bound: "unat (p :: uint8_t) < 256"
  using unsigned_less [of p, where ?'a = nat] by simp

lemma decode_pad_check:
  assumes "L < 2 ^ 31"
  shows "((ucast ((p :: uint8_t) AND 0xff) + of_nat TRANSOP_AES_NONCE_SIZE :: c_int) \<le>s of_nat L)
           \<longleftrightarrow> unat p + 4 \<le> L"
proof -
  have "(ucast (p AND 0xff) + of_nat TRANSOP_AES_NONCE_SIZE :: c_int) = of_nat (unat p + 4)"
    by (simp only: byte_mask ucast_byte_int TRANSOP_AES_NONCE_SIZE_def of_nat_add)
  moreover have "unat p + 4 < 2 ^ 31" using unat_byte_bound [of p] by simp
  then have "sint (of_nat (unat p + 4) :: c_int) = int (unat p + 4)" by (rule sint_of_nat32)
  moreover have "sint (of_nat L :: c_int) = int L" using assms by (rule sint_of_nat32)
  ultimately show ?thesis by (simp only: word_sle_eq of_nat_le_iff)
qed

lemma decode_payload_len:
  assumes "unat p + 4 \<le> L"
  shows "((of_nat L :: c_int) - ucast ((p :: uint8_t) AND 0xff)) - of_nat TRANSOP_AES_NONCE_SIZE
           = of_nat (L - unat p - 4)"
proof -
  have "(of_nat (L - unat p - 4) :: c_int) = of_nat L - of_nat (unat p) - of_nat 4"
    using assms by (simp add: of_nat_diff)
  then show ?thesis
    by (simp only: byte_mask ucast_byte_int TRANSOP_AES_NONCE_SIZE_def)
qed

lemma decode_guard:
  assumes "4 \<le> L" and "L \<le> M" and "M < 2 ^ 31"
  shows "(of_nat (13 + L) :: size_t) - of_nat TRANSOP_AES_PREAMBLE_SIZE \<le> of_nat M
         \<and> (of_nat (13 + L) :: size_t) \<ge> of_nat (TRANSOP_AES_PREAMBLE_SIZE + TRANSOP_AES_NONCE_SIZE)"
proof -
  have "(of_nat (13 + L) :: size_t) - of_nat TRANSOP_AES_PREAMBLE_SIZE = of_nat L"
    by (simp add: size_defs)
  moreover have "L < 2 ^ 64" and "M < 2 ^ 64" and "13 + L < 2 ^ 64" using assms by simp_all
  then have "unat (of_nat L :: size_t) = L" and "unat (of_nat M :: size_t) = M"
    and "unat (of_nat (13 + L) :: size_t) = 13 + L"
    by (simp_all only: unat_of_nat_size)
  moreover have "unat (of_nat (TRANSOP_AES_PREAMBLE_SIZE + TRANSOP_AES_NONCE_SIZE) :: size_t) = 17"
    by (simp add: size_defs)
  ultimately show ?thesis using assms by (simp only: word_le_nat_alt) simp
qed

lemma decode_len:
  assumes "L < 2 ^ 31"
  shows "(ucast ((of_nat (13 + L) :: size_t) - of_nat TRANSOP_AES_PREAMBLE_SIZE) :: c_int) = of_nat L"
proof -
  have "(of_nat (13 + L) :: size_t) - of_nat TRANSOP_AES_PREAMBLE_SIZE = of_nat L"
    by (simp add: size_defs)
  then show ?thesis using assms by (simp only: ucast_size_to_int)
qed

lemma parse_preamble:
  fixes sa seedm cipher :: "uint8_t list"
  assumes "length sa = 4" and "length seedm = 8"
  shows "decode_uint8 ([v] @ sa @ seedm @ cipher) r 0 = Some (v, r - 1, 1)"
    and "decode_uint32 ([v] @ sa @ seedm @ cipher) r 1 = Some (host_word BigEndian sa, r - 4, 5)"
    and "decode_buf 8 ([v] @ sa @ seedm @ cipher) r 5 = Some (seedm, r - of_nat 8, 13)"
    and "mem_read ([v] @ sa @ seedm @ cipher) TRANSOP_AES_PREAMBLE_SIZE (length cipher) = Some cipher"
  using assms
  by (simp_all add: decode_uint8_def decode_uint32_def decode_buf_def mem_read_def size_defs)

lemma peek_last:
  fixes plain :: "uint8_t list"
  assumes "length plain = L" and "0 < L" and "L < 2 ^ 31"
  shows "peek (plain @ rest) (of_nat L - 1) = Some (last plain)"
proof -
  have "sint (of_nat L - 1 :: c_int) = int L - 1"
    using assms by (intro sint_pred_of_nat) simp_all
  then have i: "nat (sint (of_nat L - 1 :: c_int)) = L - 1" and "0 \<le> sint (of_nat L - 1 :: c_int)"
    using assms by simp_all
  moreover have "L - 1 < length (plain @ rest)" using assms by simp
  moreover have "plain \<noteq> []" using assms by auto
  then have "(plain @ rest) ! (L - 1) = last plain"
    using assms by (simp add: nth_append last_conv_nth)
  ultimately show ?thesis by (simp only: peek_def simp_thms if_True)
qed

lemma decode_frame:
  fixes E :: "'k platform" and sa seedm cipher plain outbuf :: "uint8_t list"
  assumes "int_holds_lengths E"
    and "length sa = 4" and "length seedm = 8" and "length cipher = L"
    and "L mod 16 = 0" and "0 < L" and "L \<le> N2N_PKT_BUF_SIZE E"
    and "plain = AES_cbc_encrypt E cipher L (dec_key priv)
           (set_aes_cbc_iv E priv (replicate N2N_AES_IVEC_SIZE 0) (host_word (host_order E) seedm))
           AES_DECRYPT"
    and "length plain = L"
  shows "transop_decode_aes E priv outbuf ([1] @ sa @ seedm @ cipher) =
     (if unat (last plain) + 4 \<le> L
      then if L - unat (last plain) - 4 \<le> length outbuf
           then Some (of_nat (L - unat (last plain) - 4),
                      take (L - unat (last plain) - 4) (drop 4 plain)
                      @ drop (L - unat (last plain) - 4) outbuf)
           else None
      else Some (of_nat L, outbuf))"
proof -
  let ?M = "N2N_PKT_BUF_SIZE E"
  let ?frame = "[1] @ sa @ seedm @ cipher"
  let ?p = "last plain"
  have M: "?M + 29 < 2 ^ 31" using assms by (simp add: int_holds_lengths_def)
  have L16: "16 \<le> L" using assms(5,6) by presburger
  have L31: "L < 2 ^ 31" using assms M by simp
  have fl: "length ?frame = 13 + L" using assms by simp
  have g: "(of_nat (length ?frame) :: size_t) - of_nat TRANSOP_AES_PREAMBLE_SIZE \<le> of_nat ?M
         \<and> (of_nat (length ?frame) :: size_t) \<ge> of_nat (TRANSOP_AES_PREAMBLE_SIZE + TRANSOP_AES_NONCE_SIZE)"
    unfolding fl using assms M L16 by (intro decode_guard) simp_all
  have len: "(ucast ((of_nat (length ?frame) :: size_t) - of_nat TRANSOP_AES_PREAMBLE_SIZE) :: c_int) = of_nat L"
    unfolding fl using L31 by (rule decode_len)
  have md: "c_mod (of_nat L) (of_nat AES_BLOCK_SIZE) = 0"
    using assms(5) by (simp only: c_mod_of_nat [OF L31]) simp
  have sz: "unat (scast (of_nat L :: c_int) :: size_t) = L"
    using L31 by (rule scast_int_to_size)
  have rd: "mem_read ?frame TRANSOP_AES_PREAMBLE_SIZE L = Some cipher"
    using parse_preamble(4) [OF assms(2,3), of 1 cipher] assms(4) by simp
  have asm: "memcpy_to (replicate ?M 0) 0 plain = Some (plain @ replicate (?M - L) 0)"
    using assms(7,9) by (simp add: memcpy_to_def)
  have pk: "peek (plain @ replicate (?M - L) 0) (of_nat L - 1) = Some ?p"
    using assms(9,6) L31 by (rule peek_last)
  have chk: "((ucast (?p AND 0xff) + of_nat TRANSOP_AES_NONCE_SIZE :: c_int) \<le>s of_nat L)
           \<longleftrightarrow> unat ?p + 4 \<le> L"
    using L31 by (rule decode_pad_check)
  have head: "transop_decode_aes E priv outbuf ?frame =
      (if unat ?p + 4 \<le> L
       then do {
              src \<leftarrow> mem_read (plain @ replicate (?M - L) 0) TRANSOP_AES_NONCE_SIZE
                       (unat (scast ((of_nat L :: c_int) - ucast (?p AND 0xff)
                                      - of_nat TRANSOP_AES_NONCE_SIZE) :: size_t));
              outbuf' \<leftarrow> memcpy_to outbuf 0 src;
              Some ((of_nat L :: c_int) - ucast (?p AND 0xff) - of_nat TRANSOP_AES_NONCE_SIZE, outbuf')
            }
       else Some (of_nat L, outbuf))"
    unfolding transop_decode_aes_def Let_def
    apply (simp only: g simp_thms if_True parse_preamble [OF assms(2,3)] Option.bind.simps prod.case
        N2N_AES_TRANSFORM_VERSION_def len md sz rd assms(8) [symmetric] asm pk chk)
    done
  show ?thesis
  proof (cases "unat ?p + 4 \<le> L")
    case False
    then show ?thesis by (simp only: head if_False)
  next
    case True
    let ?k = "L - unat ?p - 4"
    have k: "(of_nat L :: c_int) - ucast (?p AND 0xff) - of_nat TRANSOP_AES_NONCE_SIZE = of_nat ?k"
      using True by (rule decode_payload_len)
    have "?k < 2 ^ 31" using L31 by simp
    then have ks: "unat (scast (of_nat ?k :: c_int) :: size_t) = ?k" by (rule scast_int_to_size)
    have src: "mem_read (plain @ replicate (?M - L) 0) TRANSOP_AES_NONCE_SIZE ?k
                 = Some (take ?k (drop 4 plain))"
      using True assms(7,9) by (simp add: mem_read_def size_defs)
    have lk: "length (take ?k (drop 4 plain)) = ?k"
      using True assms(9) by simp
    have out: "memcpy_to outbuf 0 (take ?k (drop 4 plain))
                 = (if ?k \<le> length outbuf then Some (take ?k (drop 4 plain) @ drop ?k outbuf) else None)"
      by (simp only: memcpy_to_def lk add_0 take_0 append_Nil)
    show ?thesis
      using True by (simp only: head if_True k ks src out Option.bind.simps) simp
  qed
qed

lemma memcpy_to_SomeD:
  assumes "memcpy_to dst off src = Some r"
  shows "off + length src \<le> length dst" and "length r = length dst"
  using assms by (auto simp add: memcpy_to_def split: if_splits)

lemma encode_uint8_SomeD:
  assumes "encode_uint8 base idx v = Some (base', idx')"
  shows "idx' = idx + 1" and "length base' = length base" and "idx + 1 \<le> length base"
  using assms by (auto simp add: encode_uint8_def bind_eq_Some_conv dest: memcpy_to_SomeD)

lemma encode_uint32_SomeD:
  assumes "encode_uint32 base idx v = Some (base', idx')"
  shows "idx' = idx + 4" and "length base' = length base" and "idx + 4 \<le> length base"
  using assms
  by (auto simp add: encode_uint32_def bind_eq_Some_conv host_bytes_length dest: memcpy_to_SomeD)

lemma encode_buf_SomeD:
  assumes "encode_buf base idx p = Some (base', idx')"
  shows "idx' = idx + length p" and "length base' = length base" and "idx + length p \<le> length base"
  using assms by (auto simp add: encode_buf_def bind_eq_Some_conv dest: memcpy_to_SomeD)

lemma encode_accepted_raw:
  assumes "transop_encode_aes E priv outbuf inbuf rand_hi rand_lo rand_nonce = Some (rc, out)"
    and "rc \<noteq> - 1"
  shows "(of_nat (length inbuf) :: size_t) + of_nat TRANSOP_AES_NONCE_SIZE + of_nat TRANSOP_AES_PREAMBLE_SIZE
           \<le> of_nat (length outbuf)"
    and "13 \<le> length outbuf"
    and "length inbuf + 4 \<le> N2N_PKT_BUF_SIZE E"
proof -
  let ?g1 = "(of_nat (length inbuf) :: size_t) + of_nat TRANSOP_AES_NONCE_SIZE \<le> of_nat (N2N_PKT_BUF_SIZE E)"
  let ?g2 = "(of_nat (length inbuf) :: size_t) + of_nat TRANSOP_AES_NONCE_SIZE + of_nat TRANSOP_AES_PREAMBLE_SIZE
           \<le> of_nat (length outbuf)"
  have g1: ?g1
  proof (rule ccontr)
    assume "\<not> ?g1"
    then have "transop_encode_aes E priv outbuf inbuf rand_hi rand_lo rand_nonce = Some (- 1, outbuf)"
      by (simp add: transop_encode_aes_def Let_def)
    then show False using assms by simp
  qed
  show g2: ?g2
  proof (rule ccontr)
    assume "\<not> ?g2"
    then have "transop_encode_aes E priv outbuf inbuf rand_hi rand_lo rand_nonce = Some (- 1, outbuf)"
      using g1 by (simp add: transop_encode_aes_def Let_def)
    then show False using assms by simp
  qed
  from assms(1) g1 g2 obtain o1 i1 o2 i2 o3 i3 a1 a2 where
      s1: "encode_uint8 outbuf 0 N2N_AES_TRANSFORM_VERSION = Some (o1, i1)"
    and s2: "encode_uint32 o1 i1 0 = Some (o2, i2)"
    and s3: "encode_buf o2 i2 (host_bytes (host_order E) 8
               (push_bit 32 ((scast rand_hi :: uint64_t) AND 0xFFFFFFFF) OR scast rand_lo)) = Some (o3, i3)"
    and s4: "memcpy_to (replicate (N2N_PKT_BUF_SIZE E) 0) 0
               (host_bytes (host_order E) 4 (ucast rand_nonce :: uint32_t)) = Some a1"
    and s5: "memcpy_to a1 TRANSOP_AES_NONCE_SIZE inbuf = Some a2"
    unfolding transop_encode_aes_def Let_def
    by (simp only: if_True bind_eq_Some_conv split_paired_Ex prod.case ucast_0) blast
  have "5 + 8 \<le> length outbuf"
    using encode_uint8_SomeD [OF s1] encode_uint32_SomeD [OF s2] encode_buf_SomeD [OF s3]
    by (simp add: host_bytes_length)
  then show "13 \<le> length outbuf" by simp
  show "length inbuf + 4 \<le> N2N_PKT_BUF_SIZE E"
    using memcpy_to_SomeD [OF s4] memcpy_to_SomeD [OF s5] by (simp add: size_defs)
qed

lemma encode_cases:
  fixes E :: "'k platform" and inbuf outbuf :: "uint8_t list" and rand_hi rand_lo rand_nonce :: c_int
  defines "n \<equiv> length inbuf"
  defines "L \<equiv> ((n + 4) div 16 + 1) * 16"
  defines "seed \<equiv> push_bit 32 ((scast rand_hi :: uint64_t) AND 0xFFFFFFFF) OR scast rand_lo"
  defines "nonce \<equiv> host_bytes (host_order E) 4 (ucast rand_nonce :: uint32_t)"
  defines "padded \<equiv> nonce @ inbuf @ replicate (L - (n + 4) - 1) 0 @ [of_nat (L - (n + 4))]"
  assumes "int_holds_lengths E" and "aes_blocks E" and "n + 4 \<le> N2N_PKT_BUF_SIZE E"
    and "13 \<le> length outbuf"
    and "(of_nat (length inbuf) :: size_t) + of_nat TRANSOP_AES_NONCE_SIZE + of_nat TRANSOP_AES_PREAMBLE_SIZE
           \<le> of_nat (length outbuf)"
  shows "transop_encode_aes E priv outbuf inbuf rand_hi rand_lo rand_nonce =
     (if L \<le> N2N_PKT_BUF_SIZE E \<and> 13 + L \<le> length outbuf
      then Some (of_nat (L + 13),
                 [1, 0, 0, 0, 0] @ host_bytes (host_order E) 8 seed
                 @ AES_cbc_encrypt E padded L (enc_key priv)
                     (set_aes_cbc_iv E priv (replicate N2N_AES_IVEC_SIZE 0) seed) AES_ENCRYPT
                 @ drop (13 + L) outbuf)
      else None)"
proof -
  let ?M = "N2N_PKT_BUF_SIZE E"
  let ?iv = "set_aes_cbc_iv E priv (replicate N2N_AES_IVEC_SIZE 0) seed"
  let ?pre = "[1, 0, 0, 0, 0] @ host_bytes (host_order E) 8 seed"
  let ?cipher = "AES_cbc_encrypt E padded L (enc_key priv) ?iv AES_ENCRYPT"
  have M: "?M + 29 < 2 ^ 31" using assms by (simp add: int_holds_lengths_def)
  have Lb: "n + 5 \<le> L" "L \<le> n + 20" "L mod 16 = 0"
    unfolding L_def by (rule padded_len_bounds)+
  have L31: "L < 2 ^ 31" using Lb assms(8) M by simp
  have nonce: "length nonce = 4" by (simp add: nonce_def host_bytes_length)
  have padded: "length padded = L" using Lb nonce by (simp add: padded_def n_def)
  have steps: "transop_encode_aes E priv outbuf inbuf rand_hi rand_lo rand_nonce =
     do {
       assembly \<leftarrow> poke (nonce @ inbuf @ replicate (?M - 4 - n) 0) (of_nat L - 1) (of_nat (L - (n + 4)));
       src \<leftarrow> mem_read assembly 0 L;
       outbuf' \<leftarrow> memcpy_to ([1, 0, 0, 0, 0] @ host_bytes (host_order E) 8 seed @ drop 13 outbuf) 13
                   (AES_cbc_encrypt E src L (enc_key priv)
                      (set_aes_cbc_iv E priv (replicate N2N_AES_IVEC_SIZE 0) seed) AES_ENCRYPT);
       Some (of_nat (L + 13), outbuf')
     }"
    unfolding n_def L_def seed_def nonce_def
    using assms(6-) by (intro encode_steps_guarded) (simp_all add: n_def)
  show ?thesis
  proof (cases "L \<le> ?M")
    case False
    have "length (nonce @ inbuf @ replicate (?M - 4 - n) 0) < L"
      using False assms(8) nonce by (simp add: n_def)
    then have "poke (nonce @ inbuf @ replicate (?M - 4 - n) 0) (of_nat L - 1) (of_nat (L - (n + 4))) = None"
      using L31 by (rule poke_overrun)
    then show ?thesis using False by (simp only: steps Option.bind.simps simp_thms if_False)
  next
    case True
    have p: "poke (nonce @ inbuf @ replicate (?M - 4 - n) 0) (of_nat L - 1) (of_nat (L - (n + 4)))
               = Some (padded @ replicate (?M - L) 0)"
      unfolding padded_def n_def using True L31 Lb nonce
      by (subst poke_padding) (simp_all add: n_def)
    have r: "mem_read (padded @ replicate (?M - L) 0) 0 L = Some padded"
      using padded by (simp add: mem_read_def)
    have c: "length ?cipher = L"
      using assms(7) padded Lb(3) by (rule AES_cbc_length)
    have w: "memcpy_to ([1, 0, 0, 0, 0] @ host_bytes (host_order E) 8 seed @ drop 13 outbuf) 13 ?cipher
               = (if 13 + L \<le> length outbuf
                  then Some ([1, 0, 0, 0, 0] @ host_bytes (host_order E) 8 seed @ ?cipher @ drop (13 + L) outbuf)
                  else None)"
    proof (cases "13 + L \<le> length outbuf")
      case False
      then show ?thesis using c assms(9) by (simp add: memcpy_to_def host_bytes_length)
    next
      case fits: True
      have "memcpy_to (?pre @ drop 13 outbuf) 13 ?cipher = Some (?pre @ ?cipher @ drop L (drop 13 outbuf))"
        using c fits by (intro memcpy_to_after) (simp_all add: host_bytes_length)
      moreover have "drop L (drop 13 outbuf) = drop (13 + L) outbuf" by (simp add: add.commute)
      ultimately show ?thesis using fits by simp
    qed
    show ?thesis
      using True by (simp only: steps p r w Option.bind.simps simp_thms) (simp split: if_splits)
  qed
qed

lemma demo_int_holds_lengths: "int_holds_lengths demo_platform"
  by (simp add: int_holds_lengths_def demo_platform_def)

lemma demo_aes_inverse: "aes_inverse demo_platform"
  by (simp add: aes_inverse_def demo_platform_def comp_def)

lemma setup_keys_paired:
  "\<exists>ukey bits. enc_key (fst (setup_aes_key E priv0 key)) = AES_set_encrypt_key E ukey bits
      \<and> dec_key (fst (setup_aes_key E priv0 key)) = AES_set_decrypt_key E ukey bits"
  by (auto simp add: setup_aes_key_def Let_def)

lemma decode_oversize:
  assumes "N2N_PKT_BUF_SIZE E < L" and "L < 2 ^ 31" and "length frame = 13 + L"
  shows "transop_decode_aes E priv outbuf frame = Some (0, outbuf)"
proof -
  let ?M = "N2N_PKT_BUF_SIZE E"
  have "(of_nat (13 + L) :: size_t) - of_nat TRANSOP_AES_PREAMBLE_SIZE = of_nat L"
    by (simp add: size_defs)
  moreover have "L < 2 ^ 64" and "?M < 2 ^ 64" using assms by simp_all
  then have "unat (of_nat L :: size_t) = L" and "unat (of_nat ?M :: size_t) = ?M"
    by (simp_all only: unat_of_nat_size)
  ultimately have "\<not> (of_nat (length frame) :: size_t) - of_nat TRANSOP_AES_PREAMBLE_SIZE \<le> of_nat ?M"
    using assms by (simp only: word_le_nat_alt)
  then show ?thesis by (simp add: transop_decode_aes_def Let_def)
qed

lemma decode_of_encrypted:
  fixes E :: "'k platform" and plain outbuf :: "uint8_t list"
  assumes "int_holds_lengths E" and "aes_blocks E" and "aes_inverse E"
    and "priv = fst (setup_aes_key E priv0 key)"
    and "length plain = L" and "L mod 16 = 0" and "0 < L" and "L \<le> N2N_PKT_BUF_SIZE E"
  shows "transop_decode_aes E priv outbuf
           ([1, 0, 0, 0, 0] @ host_bytes (host_order E) 8 seed
            @ AES_cbc_encrypt E plain L (enc_key priv)
                (set_aes_cbc_iv E priv (replicate N2N_AES_IVEC_SIZE 0) seed) AES_ENCRYPT) =
     (if unat (last plain) + 4 \<le> L
      then if L - unat (last plain) - 4 \<le> length outbuf
           then Some (of_nat (L - unat (last plain) - 4),
                      take (L - unat (last plain) - 4) (drop 4 plain)
                      @ drop (L - unat (last plain) - 4) outbuf)
           else None
      else Some (of_nat L, outbuf))"
proof -
  let ?iv = "set_aes_cbc_iv E priv (replicate N2N_AES_IVEC_SIZE 0) seed"
  let ?seedm = "host_bytes (host_order E) 8 seed"
  let ?cipher = "AES_cbc_encrypt E plain L (enc_key priv) ?iv AES_ENCRYPT"
  obtain ukey bits where k: "enc_key priv = AES_set_encrypt_key E ukey bits"
      "dec_key priv = AES_set_decrypt_key E ukey bits"
    using setup_keys_paired [of E priv0 key] assms(4) by auto
  have c: "length ?cipher = L" using assms(2,5,6) by (rule AES_cbc_length)
  have sd: "host_word (host_order E) ?seedm = seed" by (rule host_word_bytes)
  have "AES_cbc_encrypt E ?cipher L (dec_key priv) ?iv AES_DECRYPT = plain"
    using assms(2,3,5,6) k by (rule AES_cbc_roundtrip) (rule ivec_block_length)
  then have pl: "plain = AES_cbc_encrypt E ?cipher L (dec_key priv)
           (set_aes_cbc_iv E priv (replicate N2N_AES_IVEC_SIZE 0) (host_word (host_order E) ?seedm))
           AES_DECRYPT"
    by (simp only: sd)
  have "transop_decode_aes E priv outbuf ([1] @ [0, 0, 0, 0] @ ?seedm @ ?cipher) =
     (if unat (last plain) + 4 \<le> L
      then if L - unat (last plain) - 4 \<le> length outbuf
           then Some (of_nat (L - unat (last plain) - 4),
                      take (L - unat (last plain) - 4) (drop 4 plain)
                      @ drop (L - unat (last plain) - 4) outbuf)
           else None
      else Some (of_nat L, outbuf))"
    using assms(1) _ _ c assms(6,7,8) pl assms(5)
    by (rule decode_frame) (simp_all add: host_bytes_length)
  then show ?thesis by simp
qed

lemma pad_amount:
  fixes n :: nat
  shows "((n + 4) div 16 + 1) * 16 - (n + 4) = 16 - (4 + n) mod 16"
  by presburger

lemma roundtrip_within_scratch:
  fixes E :: "'k platform" and inbuf outbuf outbuf' :: "uint8_t list" and rand_hi rand_lo rand_nonce :: c_int
  defines "L \<equiv> ((length inbuf + 4) div 16 + 1) * 16"
  assumes "int_holds_lengths E" and "aes_blocks E" and "aes_inverse E"
    and "priv = fst (setup_aes_key E priv0 key)"
    and "L \<le> N2N_PKT_BUF_SIZE E"
    and "13 + L \<le> length outbuf" and "length outbuf < 2 ^ 64"
    and "length inbuf \<le> length outbuf'"
  shows "\<exists>frame. length frame = 13 + L
           \<and> transop_encode_aes E priv outbuf inbuf rand_hi rand_lo rand_nonce
                = Some (of_nat (L + 13), frame @ drop (13 + L) outbuf)
           \<and> transop_decode_aes E priv outbuf' frame
                = Some (of_nat (length inbuf), inbuf @ drop (length inbuf) outbuf')"
proof -
  let ?n = "length inbuf" and ?M = "N2N_PKT_BUF_SIZE E"
  let ?seed = "push_bit 32 ((scast rand_hi :: uint64_t) AND 0xFFFFFFFF) OR scast rand_lo"
  let ?nonce = "host_bytes (host_order E) 4 (ucast rand_nonce :: uint32_t)"
  let ?padded = "?nonce @ inbuf @ replicate (L - (?n + 4) - 1) 0 @ [of_nat (L - (?n + 4))]"
  let ?cipher = "AES_cbc_encrypt E ?padded L (enc_key priv)
                   (set_aes_cbc_iv E priv (replicate N2N_AES_IVEC_SIZE 0) ?seed) AES_ENCRYPT"
  let ?frame = "[1, 0, 0, 0, 0] @ host_bytes (host_order E) 8 ?seed @ ?cipher"
  have M: "?M + 29 < 2 ^ 31" using assms by (simp add: int_holds_lengths_def)
  have Lb: "?n + 5 \<le> L" "L \<le> ?n + 20" "L mod 16 = 0"
    unfolding L_def by (rule padded_len_bounds)+
  have nonce: "length ?nonce = 4" by (simp add: host_bytes_length)
  have padded: "length ?padded = L" using Lb nonce by simp
  have c: "length ?cipher = L" using assms(3) padded Lb(3) by (rule AES_cbc_length)
  have fl: "length ?frame = 13 + L" using c by (simp add: host_bytes_length)
  have g2: "(of_nat ?n :: size_t) + of_nat TRANSOP_AES_NONCE_SIZE + of_nat TRANSOP_AES_PREAMBLE_SIZE
              \<le> of_nat (length outbuf)"
    using assms(6-) M Lb by (subst encode_guard_out) simp_all
  have "transop_encode_aes E priv outbuf inbuf rand_hi rand_lo rand_nonce =
     (if L \<le> ?M \<and> 13 + L \<le> length outbuf
      then Some (of_nat (L + 13), [1, 0, 0, 0, 0] @ host_bytes (host_order E) 8 ?seed @ ?cipher
                 @ drop (13 + L) outbuf)
      else None)"
    unfolding L_def using assms(2,3) _ _ g2
    by (rule encode_cases) (use assms(6,7) Lb in \<open>simp_all add: L_def\<close>)
  then have enc: "transop_encode_aes E priv outbuf inbuf rand_hi rand_lo rand_nonce
                = Some (of_nat (L + 13), ?frame @ drop (13 + L) outbuf)"
    using assms(6,7) by simp
  have "L - (?n + 4) < 2 ^ 8" using Lb by simp
  then have "(L - (?n + 4)) mod 2 ^ LENGTH(8) = L - (?n + 4)" by simp
  then have pv: "unat (of_nat (L - (?n + 4)) :: uint8_t) = L - (?n + 4)"
    by (simp only: unat_of_nat)
  have lastp: "last ?padded = of_nat (L - (?n + 4))" by simp
  have k: "L - (L - (?n + 4)) - 4 = ?n" using Lb by simp
  have payload: "take ?n (drop 4 ?padded) = inbuf" using nonce by simp
  have "transop_decode_aes E priv outbuf' ?frame =
     (if unat (last ?padded) + 4 \<le> L
      then if L - unat (last ?padded) - 4 \<le> length outbuf'
           then Some (of_nat (L - unat (last ?padded) - 4),
                      take (L - unat (last ?padded) - 4) (drop 4 ?padded)
                      @ drop (L - unat (last ?padded) - 4) outbuf')
           else None
      else Some (of_nat L, outbuf'))"
    using assms(2,3,4,5) padded Lb(3) _ assms(6)
    by (rule decode_of_encrypted) (use Lb in simp)
  then have dec: "transop_decode_aes E priv outbuf' ?frame
                = Some (of_nat ?n, inbuf @ drop ?n outbuf')"
    using Lb assms(9) by (simp only: lastp pv k payload) simp
  show ?thesis
    using fl enc dec by blast
qed

section \<open>Encoding and the round trip\<close>

lemma roundtrip_frame:
  fixes E :: "'k platform" and priv :: "'k transop_aes"
    and inbuf outbuf outbuf' :: "uint8_t list" and rand_hi rand_lo rand_nonce :: c_int
  defines "L \<equiv> ((length inbuf + 4) div 16 + 1) * 16"
  defines "seed \<equiv> push_bit 32 ((scast rand_hi :: uint64_t) AND 0xFFFFFFFF) OR scast rand_lo"
  defines "nonce \<equiv> host_bytes (host_order E) 4 (ucast rand_nonce :: uint32_t)"
  defines "padded \<equiv> nonce @ inbuf @ replicate (L - (length inbuf + 4) - 1) 0 @ [of_nat (L - (length inbuf + 4))]"
  defines "frame \<equiv> [1, 0, 0, 0, 0] @ host_bytes (host_order E) 8 seed
                     @ AES_cbc_encrypt E padded L (enc_key priv)
                         (set_aes_cbc_iv E priv (replicate N2N_AES_IVEC_SIZE 0) seed) AES_ENCRYPT"
  assumes "int_holds_lengths E" and "aes_blocks E" and "aes_inverse E"
    and "priv = fst (setup_aes_key E priv0 key)"
    and "L \<le> N2N_PKT_BUF_SIZE E"
    and "13 + L \<le> length outbuf" and "length outbuf < 2 ^ 64"
    and "length inbuf \<le> length outbuf'"
  shows "length frame = 13 + L"
    and "transop_encode_aes E priv outbuf inbuf rand_hi rand_lo rand_nonce
           = Some (of_nat (L + 13), frame @ drop (13 + L) outbuf)"
    and "hd frame = N2N_AES_TRANSFORM_VERSION"
    and "AES_cbc_encrypt E (drop TRANSOP_AES_PREAMBLE_SIZE frame) L (dec_key priv)
           (set_aes_cbc_iv E priv (replicate N2N_AES_IVEC_SIZE 0)
              (host_word (host_order E) (take 8 (drop 5 frame)))) AES_DECRYPT = padded"
    and "transop_decode_aes E priv outbuf' frame
           = Some (of_nat (length inbuf), inbuf @ drop (length inbuf) outbuf')"
proof -
  let ?n = "length inbuf" and ?M = "N2N_PKT_BUF_SIZE E"
  let ?iv = "set_aes_cbc_iv E priv (replicate N2N_AES_IVEC_SIZE 0) seed"
  let ?seedm = "host_bytes (host_order E) 8 seed"
  let ?cipher = "AES_cbc_encrypt E padded L (enc_key priv) ?iv AES_ENCRYPT"
  have M: "?M + 29 < 2 ^ 31" using assms by (simp add: int_holds_lengths_def)
  have Lb: "?n + 5 \<le> L" "L \<le> ?n + 20" "L mod 16 = 0"
    unfolding L_def by (rule padded_len_bounds)+
  have nonce: "length nonce = 4" by (simp add: nonce_def host_bytes_length)
  have padded: "length padded = L" using Lb nonce by (simp add: padded_def)
  have c: "length ?cipher = L" using assms(7) padded Lb(3) by (rule AES_cbc_length)
  show fl: "length frame = 13 + L" using c by (simp add: frame_def host_bytes_length)
  show "hd frame = N2N_AES_TRANSFORM_VERSION"
    by (simp add: frame_def N2N_AES_TRANSFORM_VERSION_def)
  have g2: "(of_nat ?n :: size_t) + of_nat TRANSOP_AES_NONCE_SIZE + of_nat TRANSOP_AES_PREAMBLE_SIZE
              \<le> of_nat (length outbuf)"
    using assms(10-) M Lb by (subst encode_guard_out) simp_all
  have "transop_encode_aes E priv outbuf inbuf rand_hi rand_lo rand_nonce =
     (if L \<le> ?M \<and> 13 + L \<le> length outbuf
      then Some (of_nat (L + 13), [1, 0, 0, 0, 0] @ ?seedm @ ?cipher @ drop (13 + L) outbuf)
      else None)"
    unfolding L_def padded_def nonce_def seed_def using assms(6,7) _ _ g2
    by (rule encode_cases) (use assms(10,11) Lb in \<open>simp_all add: L_def\<close>)
  then show "transop_encode_aes E priv outbuf inbuf rand_hi rand_lo rand_nonce
                = Some (of_nat (L + 13), frame @ drop (13 + L) outbuf)"
    using assms(10,11) by (simp add: frame_def)
  obtain ukey bits where k: "enc_key priv = AES_set_encrypt_key E ukey bits"
      "dec_key priv = AES_set_decrypt_key E ukey bits"
    using setup_keys_paired [of E priv0 key] assms(9) by auto
  have parts: "take 8 (drop 5 frame) = ?seedm" "drop TRANSOP_AES_PREAMBLE_SIZE frame = ?cipher"
    by (simp_all add: frame_def host_bytes_length size_defs)
  have sd: "host_word (host_order E) ?seedm = seed" by (rule host_word_bytes)
  have "AES_cbc_encrypt E ?cipher L (dec_key priv) ?iv AES_DECRYPT = padded"
    using assms(7,8) padded Lb(3) k by (rule AES_cbc_roundtrip) (rule ivec_block_length)
  then show "AES_cbc_encrypt E (drop TRANSOP_AES_PREAMBLE_SIZE frame) L (dec_key priv)
           (set_aes_cbc_iv E priv (replicate N2N_AES_IVEC_SIZE 0)
              (host_word (host_order E) (take 8 (drop 5 frame)))) AES_DECRYPT = padded"
    by (simp only: parts sd)
  have "L - (?n + 4) < 2 ^ 8" using Lb by simp
  then have "(L - (?n + 4)) mod 2 ^ LENGTH(8) = L - (?n + 4)" by simp
  then have pv: "unat (of_nat (L - (?n + 4)) :: uint8_t) = L - (?n + 4)"
    by (simp only: unat_of_nat)
  have lastp: "last padded = of_nat (L - (?n + 4))" by (simp add: padded_def)
  have k': "L - (L - (?n + 4)) - 4 = ?n" using Lb by simp
  have payload: "take ?n (drop 4 padded) = inbuf" using nonce by (simp add: padded_def)
  have "transop_decode_aes E priv outbuf' frame =
     (if unat (last padded) + 4 \<le> L
      then if L - unat (last padded) - 4 \<le> length outbuf'
           then Some (of_nat (L - unat (last padded) - 4),
                      take (L - unat (last padded) - 4) (drop 4 padded)
                      @ drop (L - unat (last padded) - 4) outbuf')
           else None
      else Some (of_nat L, outbuf'))"
    unfolding frame_def using assms(6,7,8,9) padded Lb(3) _ assms(10)
    by (rule decode_of_encrypted) (use Lb in simp)
  then show "transop_decode_aes E priv outbuf' frame
                = Some (of_nat ?n, inbuf @ drop ?n outbuf')"
    using Lb assms(13) by (simp only: lastp pv k' payload) simp
qed

text \<open>
  C9. With a state derived from an 8-byte secret and an empty payload, encode returns
  13 + 16 = 29 (the preamble and one padded block), provided the scratch buffer holds one
  block and the output buffer holds the 29 bytes. Decode accepts those 29 bytes: the
  first byte is the version 1, the ciphertext is one whole block that fits the scratch
  buffer, it decrypts to the nonce, eleven zero bytes and the pad length 12, and
  12 + 4 does not exceed 16, so the padding test passes and the recovered length is
  16 - 12 - 4 = 0, with the output buffer left as it was. That 0 is a payload length:
  under the same conditions every payload of up to 11 bytes also gives a 29-byte frame,
  and decode returns its length and its bytes.
\<close>

theorem empty_payload_scenario:
  assumes "int_holds_lengths E" and "aes_blocks E" and "aes_inverse E"
    and "length secret = 8" and "priv = fst (setup_aes_key E priv0 secret)"
    and "16 \<le> N2N_PKT_BUF_SIZE E"
    and "29 \<le> length outbuf" and "length outbuf < 2 ^ 64"
  shows "(\<exists>frame nonce.
            length frame = 13 + 16 \<and> length nonce = TRANSOP_AES_NONCE_SIZE
          \<and> transop_encode_aes E priv outbuf [] rand_hi rand_lo rand_nonce
                = Some (29, frame @ drop 29 outbuf)
          \<and> hd frame = N2N_AES_TRANSFORM_VERSION
          \<and> (length frame - TRANSOP_AES_PREAMBLE_SIZE) mod AES_BLOCK_SIZE = 0
          \<and> length frame - TRANSOP_AES_PREAMBLE_SIZE \<le> N2N_PKT_BUF_SIZE E
          \<and> AES_cbc_encrypt E (drop TRANSOP_AES_PREAMBLE_SIZE frame) 16 (dec_key priv)
                (set_aes_cbc_iv E priv (replicate N2N_AES_IVEC_SIZE 0)
                   (host_word (host_order E) (take 8 (drop 5 frame)))) AES_DECRYPT
                = nonce @ replicate 11 0 @ [12]
          \<and> unat (last (nonce @ replicate 11 0 @ [12 :: uint8_t])) + TRANSOP_AES_NONCE_SIZE \<le> 16
          \<and> transop_decode_aes E priv outbuf' frame = Some (0, outbuf'))
       \<and> (\<forall>p. length p \<le> 11 \<longrightarrow> length p \<le> length outbuf' \<longrightarrow>
             (\<exists>frame. length frame = 13 + 16
                \<and> transop_encode_aes E priv outbuf p rand_hi rand_lo rand_nonce
                     = Some (29, frame @ drop 29 outbuf)
                \<and> transop_decode_aes E priv outbuf' frame
                     = Some (of_nat (length p), p @ drop (length p) outbuf')))"
proof (intro conjI allI impI)
  let ?e = "[] :: uint8_t list"
  let ?seed = "push_bit 32 ((scast rand_hi :: uint64_t) AND 0xFFFFFFFF) OR scast rand_lo"
  let ?nonce = "host_bytes (host_order E) 4 (ucast rand_nonce :: uint32_t)"
  let ?padded = "?nonce @ ?e @ replicate (((length ?e + 4) div 16 + 1) * 16 - (length ?e + 4) - 1) 0
                   @ [of_nat (((length ?e + 4) div 16 + 1) * 16 - (length ?e + 4))]"
  let ?frame = "[1, 0, 0, 0, 0] @ host_bytes (host_order E) 8 ?seed
                  @ AES_cbc_encrypt E ?padded (((length ?e + 4) div 16 + 1) * 16) (enc_key priv)
                      (set_aes_cbc_iv E priv (replicate N2N_AES_IVEC_SIZE 0) ?seed) AES_ENCRYPT"
  have a: "((length ?e + 4) div 16 + 1) * 16 \<le> N2N_PKT_BUF_SIZE E"
    and b: "13 + ((length ?e + 4) div 16 + 1) * 16 \<le> length outbuf"
    and c: "length ?e \<le> length outbuf'"
    using assms by simp_all
  note rt = roundtrip_frame [where inbuf = ?e and rand_hi = rand_hi and rand_lo = rand_lo
      and rand_nonce = rand_nonce, OF assms(1,2,3,5) a b assms(8) c]
  have pd: "?padded = ?nonce @ replicate 11 0 @ [12]" by simp
  have p13: "TRANSOP_AES_PREAMBLE_SIZE = 13" by (simp add: size_defs)
  have f1: "length ?frame = 13 + 16" using rt(1) by simp
  have f2: "transop_encode_aes E priv outbuf [] rand_hi rand_lo rand_nonce
              = Some (29, ?frame @ drop 29 outbuf)"
    using rt(2) by simp
  have f3: "hd ?frame = N2N_AES_TRANSFORM_VERSION" by (rule rt(3))
  have f4: "AES_cbc_encrypt E (drop TRANSOP_AES_PREAMBLE_SIZE ?frame) 16 (dec_key priv)
                (set_aes_cbc_iv E priv (replicate N2N_AES_IVEC_SIZE 0)
                   (host_word (host_order E) (take 8 (drop 5 ?frame)))) AES_DECRYPT
                = ?nonce @ replicate 11 0 @ [12]"
    using rt(4) by (simp only: pd) simp
  have f5: "transop_decode_aes E priv outbuf' ?frame = Some (0, outbuf')"
    using rt(5) by simp
  have f6: "(length ?frame - TRANSOP_AES_PREAMBLE_SIZE) mod AES_BLOCK_SIZE = 0"
    "length ?frame - TRANSOP_AES_PREAMBLE_SIZE \<le> N2N_PKT_BUF_SIZE E"
    using assms(6) by (simp_all only: f1 p13 AES_BLOCK_SIZE_def) simp_all
  have f7: "length ?nonce = TRANSOP_AES_NONCE_SIZE"
    "unat (last (?nonce @ replicate 11 0 @ [12 :: uint8_t])) + TRANSOP_AES_NONCE_SIZE \<le> 16"
    by (simp_all add: host_bytes_length size_defs)
  show "\<exists>frame nonce.
            length frame = 13 + 16 \<and> length nonce = TRANSOP_AES_NONCE_SIZE
          \<and> transop_encode_aes E priv outbuf [] rand_hi rand_lo rand_nonce
                = Some (29, frame @ drop 29 outbuf)
          \<and> hd frame = N2N_AES_TRANSFORM_VERSION
          \<and> (length frame - TRANSOP_AES_PREAMBLE_SIZE) mod AES_BLOCK_SIZE = 0
          \<and> length frame - TRANSOP_AES_PREAMBLE_SIZE \<le> N2N_PKT_BUF_SIZE E
          \<and> AES_cbc_encrypt E (drop TRANSOP_AES_PREAMBLE_SIZE frame) 16 (dec_key priv)
                (set_aes_cbc_iv E priv (replicate N2N_AES_IVEC_SIZE 0)
                   (host_word (host_order E) (take 8 (drop 5 frame)))) AES_DECRYPT
                = nonce @ replicate 11 0 @ [12]
          \<and> unat (last (nonce @ replicate 11 0 @ [12 :: uint8_t])) + TRANSOP_AES_NONCE_SIZE \<le> 16
          \<and> transop_decode_aes E priv outbuf' frame = Some (0, outbuf')"
    by (rule exI [of _ ?frame], rule exI [of _ ?nonce], intro conjI)
       (rule f1 f2 f3 f4 f5 f6 f7)+
next
  fix p :: "uint8_t list"
  assume p: "length p \<le> 11" and q: "length p \<le> length outbuf'"
  have L: "((length p + 4) div 16 + 1) * 16 = 16" using p by simp
  have a: "((length p + 4) div 16 + 1) * 16 \<le> N2N_PKT_BUF_SIZE E"
    and b: "13 + ((length p + 4) div 16 + 1) * 16 \<le> length outbuf"
    using assms(6,7) by (simp_all only: L)
  show "\<exists>frame. length frame = 13 + 16
                \<and> transop_encode_aes E priv outbuf p rand_hi rand_lo rand_nonce
                     = Some (29, frame @ drop 29 outbuf)
                \<and> transop_decode_aes E priv outbuf' frame
                     = Some (of_nat (length p), p @ drop (length p) outbuf')"
    using roundtrip_within_scratch [OF assms(1,2,3,5) a b assms(8) q,
        of rand_hi rand_lo rand_nonce]
    by (simp only: L) simp
qed

theorem empty_payload_scenario_witness:
  "length demo_secret = 8 \<and> 16 \<le> N2N_PKT_BUF_SIZE demo_platform
   \<and> (\<exists>frame nonce.
            length frame = 13 + 16 \<and> length nonce = TRANSOP_AES_NONCE_SIZE
          \<and> transop_encode_aes demo_platform (fst (setup_aes_key demo_platform demo_priv demo_secret))
                (replicate 29 0) [] 1 2 3
                = Some (29, frame @ drop 29 (replicate 29 0))
          \<and> hd frame = N2N_AES_TRANSFORM_VERSION
          \<and> (length frame - TRANSOP_AES_PREAMBLE_SIZE) mod AES_BLOCK_SIZE = 0
          \<and> length frame - TRANSOP_AES_PREAMBLE_SIZE \<le> N2N_PKT_BUF_SIZE demo_platform
          \<and> AES_cbc_encrypt demo_platform (drop TRANSOP_AES_PREAMBLE_SIZE frame) 16
                (dec_key (fst (setup_aes_key demo_platform demo_priv demo_secret)))
                (set_aes_cbc_iv demo_platform (fst (setup_aes_key demo_platform demo_priv demo_secret))
                   (replicate N2N_AES_IVEC_SIZE 0)
                   (host_word (host_order demo_platform) (take 8 (drop 5 frame)))) AES_DECRYPT
                = nonce @ replicate 11 0 @ [12]
          \<and> unat (last (nonce @ replicate 11 0 @ [12 :: uint8_t])) + TRANSOP_AES_NONCE_SIZE \<le> 16
          \<and> transop_decode_aes demo_platform (fst (setup_aes_key demo_platform demo_priv demo_secret))
                [7, 7, 7] frame = Some (0, [7, 7, 7]))
   \<and> length [9 :: uint8_t] \<le> 11 \<and> length [9 :: uint8_t] \<le> length [7, 7, 7 :: uint8_t]
   \<and> (\<exists>frame. length frame = 13 + 16
          \<and> transop_encode_aes demo_platform (fst (setup_aes_key demo_platform demo_priv demo_secret))
               (replicate 29 0) [9] 1 2 3
               = Some (29, frame @ drop 29 (replicate 29 0))
          \<and> transop_decode_aes demo_platform (fst (setup_aes_key demo_platform demo_priv demo_secret))
               [7, 7, 7] frame
               = Some (of_nat (length [9 :: uint8_t]), [9] @ drop (length [9 :: uint8_t]) [7, 7, 7]))"
proof -
  have h: "length demo_secret = 8" by (simp add: demo_secret_def)
  have m: "16 \<le> N2N_PKT_BUF_SIZE demo_platform" by (simp add: demo_platform_def)
  have c: "29 \<le> length (replicate 29 (0 :: uint8_t))" "length (replicate 29 (0 :: uint8_t)) < 2 ^ 64"
    by simp_all
  have p: "length [9 :: uint8_t] \<le> 11" and q: "length [9 :: uint8_t] \<le> length [7, 7, 7 :: uint8_t]"
    by simp_all
  note t = empty_payload_scenario [OF demo_int_holds_lengths demo_aes_blocks demo_aes_inverse h refl m c,
      of demo_priv 1 2 3 "[7, 7, 7]"]
  note t1 = t [THEN conjunct1]
  note t2 = t [THEN conjunct2, rule_format, OF p q]
  show ?thesis
    by (intro conjI h m p q t1 t2)
qed

text \<open>
  Whenever encode returns a length, the buffer it encrypted is the 4 nonce bytes, the
  plaintext, then \<open>pad\<close> bytes with \<open>pad = 16 - (4 + n) mod 16\<close> between 1 and 16, the
  last of them holding \<open>pad\<close> and the others zero, and the frame written is the
  preamble followed by the CBC encryption of that buffer.
\<close>

lemma encrypted_buffer_when_returned:
  assumes "int_holds_lengths E" and "aes_blocks E"
    and "transop_encode_aes E priv outbuf inbuf rand_hi rand_lo rand_nonce = Some (rc, out)"
    and "rc \<noteq> - 1"
  shows "(let pad = AES_BLOCK_SIZE - (TRANSOP_AES_NONCE_SIZE + length inbuf) mod AES_BLOCK_SIZE;
              nonce = host_bytes (host_order E) TRANSOP_AES_NONCE_SIZE (ucast rand_nonce :: uint32_t);
              seed = push_bit 32 ((scast rand_hi :: uint64_t) AND 0xFFFFFFFF) OR scast rand_lo;
              buffer = nonce @ inbuf @ replicate (pad - 1) 0 @ [of_nat pad]
          in 1 \<le> pad \<and> pad \<le> AES_BLOCK_SIZE
             \<and> length nonce = TRANSOP_AES_NONCE_SIZE
             \<and> length buffer = TRANSOP_AES_NONCE_SIZE + length inbuf + pad
             \<and> length buffer mod AES_BLOCK_SIZE = 0
             \<and> length buffer \<le> N2N_PKT_BUF_SIZE E
             \<and> unat (last buffer) = pad
             \<and> rc = of_nat (TRANSOP_AES_PREAMBLE_SIZE + length buffer)
             \<and> out = [1, 0, 0, 0, 0] @ host_bytes (host_order E) 8 seed
                     @ AES_cbc_encrypt E buffer (length buffer) (enc_key priv)
                         (set_aes_cbc_iv E priv (replicate N2N_AES_IVEC_SIZE 0) seed) AES_ENCRYPT
                     @ drop (TRANSOP_AES_PREAMBLE_SIZE + length buffer) outbuf)"
proof -
  let ?n = "length inbuf" and ?M = "N2N_PKT_BUF_SIZE E"
  let ?L = "((?n + 4) div 16 + 1) * 16"
  let ?pad = "16 - (4 + ?n) mod 16"
  let ?seed = "push_bit 32 ((scast rand_hi :: uint64_t) AND 0xFFFFFFFF) OR scast rand_lo"
  let ?nonce = "host_bytes (host_order E) 4 (ucast rand_nonce :: uint32_t)"
  let ?padded = "?nonce @ inbuf @ replicate (?L - (?n + 4) - 1) 0 @ [of_nat (?L - (?n + 4))]"
  let ?buffer = "?nonce @ inbuf @ replicate (?pad - 1) 0 @ [of_nat ?pad]"
  note raw = encode_accepted_raw [OF assms(3,4)]
  have pad: "?L - (?n + 4) = ?pad" by (rule pad_amount)
  have pb: "1 \<le> ?pad" "?pad \<le> 16" by simp_all
  have bl: "length ?buffer = 4 + ?n + ?pad" using pb by (simp add: host_bytes_length)
  have bL: "length ?buffer = ?L" using bl pad by presburger
  have "?pad < 2 ^ 8" using pb by simp
  then have "?pad mod 2 ^ LENGTH(8) = ?pad" by simp
  then have pv: "unat (of_nat ?pad :: uint8_t) = ?pad" by (simp only: unat_of_nat)
  have cases: "transop_encode_aes E priv outbuf inbuf rand_hi rand_lo rand_nonce =
     (if ?L \<le> ?M \<and> 13 + ?L \<le> length outbuf
      then Some (of_nat (?L + 13), [1, 0, 0, 0, 0] @ host_bytes (host_order E) 8 ?seed
                 @ AES_cbc_encrypt E ?padded ?L (enc_key priv)
                     (set_aes_cbc_iv E priv (replicate N2N_AES_IVEC_SIZE 0) ?seed) AES_ENCRYPT
                 @ drop (13 + ?L) outbuf)
      else None)"
    using assms(1,2) raw(3,2,1) by (rule encode_cases)
  have fits: "?L \<le> ?M \<and> 13 + ?L \<le> length outbuf"
    using assms(3) cases by (simp split: if_splits)
  have res: "rc = of_nat (?L + 13)"
    "out = [1, 0, 0, 0, 0] @ host_bytes (host_order E) 8 ?seed
                 @ AES_cbc_encrypt E ?padded ?L (enc_key priv)
                     (set_aes_cbc_iv E priv (replicate N2N_AES_IVEC_SIZE 0) ?seed) AES_ENCRYPT
                 @ drop (13 + ?L) outbuf"
    using assms(3) cases fits by simp_all
  have same: "?padded = ?buffer" by (simp only: pad)
  note res1 = res [unfolded same]
  have res': "rc = of_nat (length ?buffer + 13)"
    "out = [1, 0, 0, 0, 0] @ host_bytes (host_order E) 8 ?seed
                 @ AES_cbc_encrypt E ?buffer (length ?buffer) (enc_key priv)
                     (set_aes_cbc_iv E priv (replicate N2N_AES_IVEC_SIZE 0) ?seed) AES_ENCRYPT
                 @ drop (13 + length ?buffer) outbuf"
    using res1 by (simp_all only: bL [symmetric])
  have m: "length ?buffer mod 16 = 0" by (simp only: bL padded_len_bounds)
  have fitsM: "length ?buffer \<le> ?M" using fits by (simp only: bL)
  have lastb: "unat (last ?buffer) = ?pad" using pv by simp
  have nl: "length ?nonce = 4" by (simp add: host_bytes_length)
  have bl': "length ?buffer = 4 + length inbuf + ?pad" by (rule bl)
  have p13: "TRANSOP_AES_PREAMBLE_SIZE = 13" by (simp add: size_defs)
  show ?thesis
    unfolding Let_def AES_BLOCK_SIZE_def TRANSOP_AES_NONCE_SIZE_def p13
    apply (intro conjI)
    subgoal using pb by simp
    subgoal using pb by simp
    subgoal using nl by simp
    subgoal by (rule bl')
    subgoal by (rule m)
    subgoal by (rule fitsM)
    subgoal by (rule lastb)
    subgoal using res'(1) by (simp only: add.commute [of _ 13])
    subgoal by (rule res'(2))
    done
qed

lemma encrypted_buffer_when_returned_example:
  "transop_encode_aes demo_platform demo_priv (replicate 45 0) [1, 2, 3, 4, 5, 6, 7, 8, 9, 10, 11, 12] 1 2 3
     = Some (45, [1, 0, 0, 0, 0, 2, 0, 0, 0, 1, 0, 0, 0, 3, 2, 2, 2, 1, 4, 3, 6, 7, 8, 7,
                  10, 12, 12, 11, 14, 4, 3, 3, 3, 2, 5, 4, 7, 8, 9, 8, 11, 13, 13, 12, 31])
   \<and> (45 :: c_int) \<noteq> - 1
   \<and> (let pad = AES_BLOCK_SIZE - (TRANSOP_AES_NONCE_SIZE + 12) mod AES_BLOCK_SIZE;
            buffer = host_bytes (host_order demo_platform) TRANSOP_AES_NONCE_SIZE (3 :: uint32_t)
                     @ [1, 2, 3, 4, 5, 6, 7, 8, 9, 10, 11, 12] @ replicate (pad - 1) 0 @ [of_nat pad]
        in pad = 16 \<and> length buffer = 32 \<and> unat (last buffer) = 16)"
proof -
  have e: "transop_encode_aes demo_platform demo_priv (replicate 45 0) [1, 2, 3, 4, 5, 6, 7, 8, 9, 10, 11, 12] 1 2 3
     = Some (45, [1, 0, 0, 0, 0, 2, 0, 0, 0, 1, 0, 0, 0, 3, 2, 2, 2, 1, 4, 3, 6, 7, 8, 7,
                  10, 12, 12, 11, 14, 4, 3, 3, 3, 2, 5, 4, 7, 8, 9, 8, 11, 13, 13, 12, 31])"
    by code_simp
  have r: "(45 :: c_int) \<noteq> - 1" by simp
  show ?thesis
    using e r encrypted_buffer_when_returned [OF demo_int_holds_lengths demo_aes_blocks e r]
    by (simp add: Let_def size_defs)
qed

text \<open>
  C4. A plaintext of the scratch size minus 4 is accepted by both tests of encode, but
  its padded length is larger than the scratch buffer. The index \<open>len2 - 1\<close> at which
  the pad length is stored lies outside the zero-filled array, so the pad bytes are not
  inside the buffer the policy describes: the store is an out-of-bounds write.
\<close>

theorem pad_byte_outside_scratch:
  assumes "int_holds_lengths E"
    and "4 \<le> N2N_PKT_BUF_SIZE E" and "length inbuf = N2N_PKT_BUF_SIZE E - 4"
    and "length inbuf + 4 + 13 \<le> length outbuf" and "length outbuf < 2 ^ 64"
  shows "(let in_len = (of_nat (length inbuf) :: size_t);
              len = (ucast (in_len + of_nat TRANSOP_AES_NONCE_SIZE) :: c_int);
              len2 = (c_div len (of_nat AES_BLOCK_SIZE) + 1) * of_nat AES_BLOCK_SIZE
          in in_len + of_nat TRANSOP_AES_NONCE_SIZE \<le> of_nat (N2N_PKT_BUF_SIZE E)
             \<and> in_len + of_nat TRANSOP_AES_NONCE_SIZE + of_nat TRANSOP_AES_PREAMBLE_SIZE
                  \<le> of_nat (length outbuf)
             \<and> sint len = int (N2N_PKT_BUF_SIZE E)
             \<and> int (N2N_PKT_BUF_SIZE E) \<le> sint (len2 - 1)
             \<and> (\<forall>assembly. length assembly = N2N_PKT_BUF_SIZE E
                    \<longrightarrow> poke assembly (len2 - 1) (ucast (len2 - len)) = None)
             \<and> transop_encode_aes E priv outbuf inbuf rand_hi rand_lo rand_nonce = None)"
proof -
  let ?n = "length inbuf" and ?M = "N2N_PKT_BUF_SIZE E"
  let ?L = "((?n + 4) div 16 + 1) * 16"
  let ?seed = "push_bit 32 ((scast rand_hi :: uint64_t) AND 0xFFFFFFFF) OR scast rand_lo"
  let ?nonce = "host_bytes (host_order E) 4 (ucast rand_nonce :: uint32_t)"
  have M: "?M + 29 < 2 ^ 31" using assms by (simp add: int_holds_lengths_def)
  have n4: "?n + 4 = ?M" using assms(2,3) by simp
  have Lb: "?n + 5 \<le> ?L" "?L \<le> ?n + 20" by (rule padded_len_bounds)+
  have over: "?M < ?L" using n4 Lb by simp
  have L31: "?L < 2 ^ 31" using n4 Lb M by simp
  have g1: "(of_nat ?n :: size_t) + of_nat TRANSOP_AES_NONCE_SIZE \<le> of_nat ?M"
    using n4 M by (intro encode_guard_in) simp_all
  have g2: "(of_nat ?n :: size_t) + of_nat TRANSOP_AES_NONCE_SIZE + of_nat TRANSOP_AES_PREAMBLE_SIZE
              \<le> of_nat (length outbuf)"
    using assms(4,5) n4 M by (subst encode_guard_out) simp_all
  have len: "(ucast ((of_nat ?n :: size_t) + of_nat TRANSOP_AES_NONCE_SIZE) :: c_int) = of_nat (?n + 4)"
    using n4 M by (intro encode_len) simp
  have slen: "sint (of_nat (?n + 4) :: c_int) = int ?M"
    using n4 M sint_of_nat32 [of "?n + 4"] by simp
  have len2: "(c_div (of_nat (?n + 4)) (of_nat AES_BLOCK_SIZE) + 1) * of_nat AES_BLOCK_SIZE
                = (of_nat ?L :: c_int)"
    using n4 M by (intro encode_len2) simp
  have idx: "sint (of_nat ?L - 1 :: c_int) = int ?L - 1"
    using Lb L31 by (intro sint_pred_of_nat) simp_all
  have out: "int ?M \<le> sint (of_nat ?L - 1 :: c_int)" using over by (simp only: idx)
  have pk: "poke assembly (of_nat ?L - 1) v = None" if "length assembly = ?M" for assembly v
    using over L31 that by (intro poke_overrun) simp_all
  have steps: "transop_encode_aes E priv outbuf inbuf rand_hi rand_lo rand_nonce =
     do {
       assembly \<leftarrow> poke (?nonce @ inbuf @ replicate (?M - 4 - ?n) 0) (of_nat ?L - 1) (of_nat (?L - (?n + 4)));
       src \<leftarrow> mem_read assembly 0 ?L;
       outbuf' \<leftarrow> memcpy_to ([1, 0, 0, 0, 0] @ host_bytes (host_order E) 8 ?seed @ drop 13 outbuf) 13
                   (AES_cbc_encrypt E src ?L (enc_key priv)
                      (set_aes_cbc_iv E priv (replicate N2N_AES_IVEC_SIZE 0) ?seed) AES_ENCRYPT);
       Some (of_nat (?L + 13), outbuf')
     }"
    using assms(1) _ _ g2 by (rule encode_steps_guarded) (use n4 assms(4) in simp_all)
  have "length (?nonce @ inbuf @ replicate (?M - 4 - ?n) 0) = ?M"
    using n4 by (simp add: host_bytes_length)
  then have "poke (?nonce @ inbuf @ replicate (?M - 4 - ?n) 0) (of_nat ?L - 1) (of_nat (?L - (?n + 4))) = None"
    by (rule pk)
  then have enc: "transop_encode_aes E priv outbuf inbuf rand_hi rand_lo rand_nonce = None"
    by (simp only: steps Option.bind.simps)
  show ?thesis
    unfolding Let_def
    by (simp only: len len2 slen) (intro conjI allI impI g1 g2 refl out pk enc)
qed

theorem pad_byte_outside_scratch_witness:
  "length (replicate 2044 (5 :: uint8_t)) = N2N_PKT_BUF_SIZE demo_platform - 4
   \<and> (let in_len = (of_nat (length (replicate 2044 (5 :: uint8_t))) :: size_t);
           len = (ucast (in_len + of_nat TRANSOP_AES_NONCE_SIZE) :: c_int);
           len2 = (c_div len (of_nat AES_BLOCK_SIZE) + 1) * of_nat AES_BLOCK_SIZE
       in sint len = 2048 \<and> sint (len2 - 1) = 2063
          \<and> poke (replicate 2048 0) (len2 - 1) (ucast (len2 - len)) = None
          \<and> transop_encode_aes demo_platform demo_priv (replicate 4096 0) (replicate 2044 5) 1 2 3 = None)"
proof -
  have m: "4 \<le> N2N_PKT_BUF_SIZE demo_platform" by (simp add: demo_platform_def)
  have n: "length (replicate 2044 (5 :: uint8_t)) = N2N_PKT_BUF_SIZE demo_platform - 4"
    by (simp add: demo_platform_def)
  have c: "length (replicate 2044 (5 :: uint8_t)) + 4 + 13 \<le> length (replicate 4096 (0 :: uint8_t))"
    "length (replicate 4096 (0 :: uint8_t)) < 2 ^ 64"
    by simp_all
  have v: "sint ((c_div 2048 16 + 1) * 16 - 1 :: c_int) = 2063"
    by (simp add: c_div_def)
  have d: "N2N_PKT_BUF_SIZE demo_platform = 2048" by (simp add: demo_platform_def)
  show ?thesis
    using n v pad_byte_outside_scratch [OF demo_int_holds_lengths m n c, of demo_priv 1 2 3]
    by (simp add: Let_def size_defs d)
qed

text \<open>
  C3. The capacity test of encode compares \<open>out_len\<close> with the unpadded length
  \<open>in_len + 4 + 13\<close>. A capacity that holds that much but not the padded frame passes the
  test, and the ciphertext is then written past the end of the output buffer: encode
  does not reject with \<open>-1\<close>, it makes an out-of-bounds write (\<open>None\<close>).
\<close>

theorem capacity_check_ignores_padding:
  assumes "int_holds_lengths E" and "aes_blocks E"
    and "((length inbuf + 4) div 16 + 1) * 16 \<le> N2N_PKT_BUF_SIZE E"
    and "length inbuf + 4 + 13 \<le> length outbuf"
    and "length outbuf < 13 + ((length inbuf + 4) div 16 + 1) * 16"
  shows "transop_encode_aes E priv outbuf inbuf rand_hi rand_lo rand_nonce = None"
proof -
  let ?n = "length inbuf" and ?M = "N2N_PKT_BUF_SIZE E"
  let ?L = "((?n + 4) div 16 + 1) * 16"
  let ?seed = "push_bit 32 ((scast rand_hi :: uint64_t) AND 0xFFFFFFFF) OR scast rand_lo"
  let ?nonce = "host_bytes (host_order E) 4 (ucast rand_nonce :: uint32_t)"
  let ?padded = "?nonce @ inbuf @ replicate (?L - (?n + 4) - 1) 0 @ [of_nat (?L - (?n + 4))]"
  have M: "?M + 29 < 2 ^ 31" using assms by (simp add: int_holds_lengths_def)
  have Lb: "?n + 5 \<le> ?L" "?L \<le> ?n + 20" by (rule padded_len_bounds)+
  have g2: "(of_nat ?n :: size_t) + of_nat TRANSOP_AES_NONCE_SIZE + of_nat TRANSOP_AES_PREAMBLE_SIZE
              \<le> of_nat (length outbuf)"
    using assms(3-) M Lb by (subst encode_guard_out) simp_all
  have "transop_encode_aes E priv outbuf inbuf rand_hi rand_lo rand_nonce =
     (if ?L \<le> ?M \<and> 13 + ?L \<le> length outbuf
      then Some (of_nat (?L + 13), [1, 0, 0, 0, 0] @ host_bytes (host_order E) 8 ?seed
                 @ AES_cbc_encrypt E ?padded ?L (enc_key priv)
                     (set_aes_cbc_iv E priv (replicate N2N_AES_IVEC_SIZE 0) ?seed) AES_ENCRYPT
                 @ drop (13 + ?L) outbuf)
      else None)"
    using assms(1,2) _ _ g2 by (rule encode_cases) (use assms(3,4) Lb in simp_all)
  then show ?thesis using assms(5) by simp
qed

theorem capacity_check_ignores_padding_witness:
  "length ([] :: uint8_t list) + 4 + 13 \<le> length (replicate 17 (0 :: uint8_t))
   \<and> length (replicate 17 (0 :: uint8_t)) < 13 + ((length ([] :: uint8_t list) + 4) div 16 + 1) * 16
   \<and> transop_encode_aes demo_platform demo_priv (replicate 17 0) [] 1 2 3 = None"
proof -
  have m: "((length ([] :: uint8_t list) + 4) div 16 + 1) * 16 \<le> N2N_PKT_BUF_SIZE demo_platform"
    by (simp add: demo_platform_def)
  have c1: "length ([] :: uint8_t list) + 4 + 13 \<le> length (replicate 17 (0 :: uint8_t))" by simp
  have c2: "length (replicate 17 (0 :: uint8_t)) < 13 + ((length ([] :: uint8_t list) + 4) div 16 + 1) * 16"
    by simp
  show ?thesis
    using c1 c2 capacity_check_ignores_padding [OF demo_int_holds_lengths demo_aes_blocks m c1 c2,
        of demo_priv 1 2 3]
    by simp
qed

text \<open>
  C1. The round trip fails for a plaintext of the largest accepted length, scratch size
  minus 4. The input test of encode admits it, but the padded length then exceeds the
  scratch buffer and the pad byte is stored past its end; and no frame of the size such
  an encoding would have is accepted by decode, whose entry test rejects a ciphertext
  longer than the scratch buffer.
\<close>

theorem roundtrip_fails_at_scratch_size:
  assumes "int_holds_lengths E" and "aes_blocks E"
    and "4 \<le> N2N_PKT_BUF_SIZE E" and "length inbuf = N2N_PKT_BUF_SIZE E - 4"
    and "length inbuf + 4 + 13 \<le> length outbuf" and "length outbuf < 2 ^ 64"
    and "length frame = 13 + ((length inbuf + 4) div 16 + 1) * 16"
  shows "transop_encode_aes E priv outbuf inbuf rand_hi rand_lo rand_nonce = None
         \<and> transop_decode_aes E priv outbuf' frame = Some (0, outbuf')"
proof -
  let ?n = "length inbuf" and ?M = "N2N_PKT_BUF_SIZE E"
  let ?L = "((?n + 4) div 16 + 1) * 16"
  let ?seed = "push_bit 32 ((scast rand_hi :: uint64_t) AND 0xFFFFFFFF) OR scast rand_lo"
  let ?nonce = "host_bytes (host_order E) 4 (ucast rand_nonce :: uint32_t)"
  let ?padded = "?nonce @ inbuf @ replicate (?L - (?n + 4) - 1) 0 @ [of_nat (?L - (?n + 4))]"
  have M: "?M + 29 < 2 ^ 31" using assms by (simp add: int_holds_lengths_def)
  have Lb: "?n + 5 \<le> ?L" "?L \<le> ?n + 20" by (rule padded_len_bounds)+
  have over: "?M < ?L" using assms(3,4) Lb by simp
  have L31: "?L < 2 ^ 31" using assms(3,4) Lb M by simp
  have g2: "(of_nat ?n :: size_t) + of_nat TRANSOP_AES_NONCE_SIZE + of_nat TRANSOP_AES_PREAMBLE_SIZE
              \<le> of_nat (length outbuf)"
    using assms(3-) M by (subst encode_guard_out) simp_all
  have "transop_encode_aes E priv outbuf inbuf rand_hi rand_lo rand_nonce =
     (if ?L \<le> ?M \<and> 13 + ?L \<le> length outbuf
      then Some (of_nat (?L + 13), [1, 0, 0, 0, 0] @ host_bytes (host_order E) 8 ?seed
                 @ AES_cbc_encrypt E ?padded ?L (enc_key priv)
                     (set_aes_cbc_iv E priv (replicate N2N_AES_IVEC_SIZE 0) ?seed) AES_ENCRYPT
                 @ drop (13 + ?L) outbuf)
      else None)"
    using assms(1,2) _ _ g2 by (rule encode_cases) (use assms(3,4,5) in simp_all)
  then have enc: "transop_encode_aes E priv outbuf inbuf rand_hi rand_lo rand_nonce = None"
    using over by simp
  have dec: "transop_decode_aes E priv outbuf' frame = Some (0, outbuf')"
    using over L31 assms(7) by (rule decode_oversize)
  show ?thesis using enc dec by simp
qed

theorem roundtrip_fails_at_scratch_size_witness:
  "length (replicate 2044 (5 :: uint8_t)) = N2N_PKT_BUF_SIZE demo_platform - 4
   \<and> transop_encode_aes demo_platform (fst (setup_aes_key demo_platform demo_priv demo_secret))
        (replicate 4096 0) (replicate 2044 5) 1 2 3 = None
   \<and> transop_decode_aes demo_platform (fst (setup_aes_key demo_platform demo_priv demo_secret))
        (replicate 2044 0) (replicate 2077 1) = Some (0, replicate 2044 0)"
proof -
  have m: "4 \<le> N2N_PKT_BUF_SIZE demo_platform" by (simp add: demo_platform_def)
  have n: "length (replicate 2044 (5 :: uint8_t)) = N2N_PKT_BUF_SIZE demo_platform - 4"
    by (simp add: demo_platform_def)
  have c: "length (replicate 2044 (5 :: uint8_t)) + 4 + 13 \<le> length (replicate 4096 (0 :: uint8_t))"
    "length (replicate 4096 (0 :: uint8_t)) < 2 ^ 64"
    by simp_all
  have f: "length (replicate 2077 (1 :: uint8_t)) = 13 + ((length (replicate 2044 (5 :: uint8_t)) + 4) div 16 + 1) * 16"
    by simp
  show ?thesis
    using n roundtrip_fails_at_scratch_size [OF demo_int_holds_lengths demo_aes_blocks m n c f,
        of "fst (setup_aes_key demo_platform demo_priv demo_secret)" 1 2 3 "replicate 2044 0"]
    by simp
qed

text \<open>
  C2. When the padding bound is violated (the last decrypted byte plus the nonce size
  exceeds the ciphertext length), decode writes nothing to the output buffer but returns
  the ciphertext length, not 0. Such frames exist for every derived state: the
  encryption of any block-aligned buffer whose last byte is too large.
\<close>

theorem padding_violation_returns_length:
  assumes "int_holds_lengths E" and "aes_blocks E" and "aes_inverse E"
    and "priv = fst (setup_aes_key E priv0 key)"
    and "length plain = L" and "L mod 16 = 0" and "0 < L" and "L \<le> N2N_PKT_BUF_SIZE E"
    and "L < unat (last plain) + TRANSOP_AES_NONCE_SIZE"
  shows "transop_decode_aes E priv outbuf
           ([1, 0, 0, 0, 0] @ host_bytes (host_order E) 8 seed
            @ AES_cbc_encrypt E plain L (enc_key priv)
                (set_aes_cbc_iv E priv (replicate N2N_AES_IVEC_SIZE 0) seed) AES_ENCRYPT)
         = Some (of_nat L, outbuf)
         \<and> (of_nat L :: c_int) \<noteq> 0"
proof -
  have M: "N2N_PKT_BUF_SIZE E + 29 < 2 ^ 31" using assms by (simp add: int_holds_lengths_def)
  have "L < 2 ^ 32" using assms(8) M by simp
  then have "unat (of_nat L :: c_int) = L" by (simp add: unat_of_nat)
  then have nz: "(of_nat L :: c_int) \<noteq> 0" using assms(7) by auto
  have "transop_decode_aes E priv outbuf
           ([1, 0, 0, 0, 0] @ host_bytes (host_order E) 8 seed
            @ AES_cbc_encrypt E plain L (enc_key priv)
                (set_aes_cbc_iv E priv (replicate N2N_AES_IVEC_SIZE 0) seed) AES_ENCRYPT) =
     (if unat (last plain) + 4 \<le> L
      then if L - unat (last plain) - 4 \<le> length outbuf
           then Some (of_nat (L - unat (last plain) - 4),
                      take (L - unat (last plain) - 4) (drop 4 plain)
                      @ drop (L - unat (last plain) - 4) outbuf)
           else None
      else Some (of_nat L, outbuf))"
    using assms(1-8) by (rule decode_of_encrypted)
  then show ?thesis using assms(9) nz by (simp add: size_defs)
qed

theorem padding_violation_returns_length_witness:
  "transop_decode_aes demo_platform (fst (setup_aes_key demo_platform demo_priv demo_secret)) [7, 7, 7]
     ([1, 0, 0, 0, 0] @ host_bytes (host_order demo_platform) 8 (0 :: uint64_t)
      @ AES_cbc_encrypt demo_platform (replicate 15 0 @ [255]) 16
          (enc_key (fst (setup_aes_key demo_platform demo_priv demo_secret)))
          (set_aes_cbc_iv demo_platform (fst (setup_aes_key demo_platform demo_priv demo_secret))
             (replicate N2N_AES_IVEC_SIZE 0) 0) AES_ENCRYPT)
     = Some (16, [7, 7, 7])
   \<and> [1, 0, 0, 0, 0] @ host_bytes (host_order demo_platform) 8 (0 :: uint64_t)
      @ AES_cbc_encrypt demo_platform (replicate 15 0 @ [255]) 16
          (enc_key (fst (setup_aes_key demo_platform demo_priv demo_secret)))
          (set_aes_cbc_iv demo_platform (fst (setup_aes_key demo_platform demo_priv demo_secret))
             (replicate N2N_AES_IVEC_SIZE 0) 0) AES_ENCRYPT
     = [1, 0, 0, 0, 0, 0, 0, 0, 0, 0, 0, 0, 0, 34, 34, 34, 34, 34, 34, 34, 34, 34,
        34, 34, 34, 34, 34, 34, 255]"
proof -
  have p: "length (replicate 15 0 @ [255 :: uint8_t]) = 16" "(16 :: nat) mod 16 = 0" "(0 :: nat) < 16"
    by simp_all
  have m: "16 \<le> N2N_PKT_BUF_SIZE demo_platform" by (simp add: demo_platform_def)
  have v: "16 < unat (last (replicate 15 0 @ [255 :: uint8_t])) + TRANSOP_AES_NONCE_SIZE"
    by (simp add: size_defs)
  have f: "[1, 0, 0, 0, 0] @ host_bytes (host_order demo_platform) 8 (0 :: uint64_t)
      @ AES_cbc_encrypt demo_platform (replicate 15 0 @ [255]) 16
          (enc_key (fst (setup_aes_key demo_platform demo_priv demo_secret)))
          (set_aes_cbc_iv demo_platform (fst (setup_aes_key demo_platform demo_priv demo_secret))
             (replicate N2N_AES_IVEC_SIZE 0) 0) AES_ENCRYPT
     = [1, 0, 0, 0, 0, 0, 0, 0, 0, 0, 0, 0, 0, 34, 34, 34, 34, 34, 34, 34, 34, 34,
        34, 34, 34, 34, 34, 34, 255]"
    by code_simp
  show ?thesis
    using f padding_violation_returns_length [of demo_platform _ demo_priv demo_secret _ _ "[7, 7, 7]" 0,
        OF demo_int_holds_lengths demo_aes_blocks demo_aes_inverse refl p m v]
    by simp
qed

end
